theory Spec2Isabelle
  imports Main
begin

section \<open>The Sudoku solver of \<^verbatim>\<open>solver.py\<close>: data model\<close>

text \<open>
  The board is a Python list of lists of integers, the possibility matrix a list of lists
  of sets of integers.  Indices come from \<^verbatim>\<open>range(...)\<close> and are natural numbers; digits
  are Python integers.  The class \<^verbatim>\<open>solverSudoku\<close> has the three fields below.
\<close>

type_synonym grid = "int list list"
type_synonym possibilities = "int set list list"

record solverSudoku =
  board :: grid
  steps :: int
  backtracks :: int

text \<open>
  The source raises nothing itself.  The exceptions the interpreter can raise in it are
  an \<^verbatim>\<open>IndexError\<close> for a subscript out of range, a \<^verbatim>\<open>RecursionError\<close> when the
  recursion of \<^verbatim>\<open>solve_smart_backtracking\<close> exceeds the depth it is given, and a
  \<^verbatim>\<open>ValueError\<close> when \<^verbatim>\<open>reshape(9, 9)\<close> in \<^verbatim>\<open>getFinishedBoard\<close> gets a list that has not
  81 entries.  An exception leaves every enclosing loop and call, as \<open>bindE\<close> does.
\<close>

datatype error = IndexError | RecursionError | ValueError

definition bindE :: "error + 'a \<Rightarrow> ('a \<Rightarrow> error + 'b) \<Rightarrow> error + 'b" where
  "bindE m f = (case m of Inl e \<Rightarrow> Inl e | Inr v \<Rightarrow> f v)"

text \<open>A \<^verbatim>\<open>for x in xs:\<close> loop whose body updates the state \<open>s\<close> and may raise.\<close>

fun forE :: "'a list \<Rightarrow> ('a \<Rightarrow> 's \<Rightarrow> error + 's) \<Rightarrow> 's \<Rightarrow> error + 's" where
  "forE [] f s = Inr s"
| "forE (x # xs) f s = bindE (f x s) (forE xs f)"

text \<open>\<^verbatim>\<open>m[i][j]\<close> and \<^verbatim>\<open>m[i][j] = v\<close> on a list of lists.\<close>

definition get_cell :: "'a list list \<Rightarrow> nat \<Rightarrow> nat \<Rightarrow> error + 'a" where
  "get_cell m i j =
     (if i < length m \<and> j < length (m ! i) then Inr (m ! i ! j) else Inl IndexError)"

definition set_cell :: "'a list list \<Rightarrow> nat \<Rightarrow> nat \<Rightarrow> 'a \<Rightarrow> error + 'a list list" where
  "set_cell m i j v =
     (if i < length m \<and> j < length (m ! i) then Inr (m[i := (m ! i)[j := v]])
      else Inl IndexError)"

text \<open>The cells the loops of the source run over, in the order they visit them.\<close>

definition row_cells :: "nat \<Rightarrow> (nat \<times> nat) list" where
  "row_cells row = map (\<lambda>j. (row, j)) [0..<9]"

definition col_cells :: "nat \<Rightarrow> (nat \<times> nat) list" where
  "col_cells col = map (\<lambda>i. (i, col)) [0..<9]"

definition block_cells :: "nat \<Rightarrow> nat \<Rightarrow> (nat \<times> nat) list" where
  "block_cells r0 c0 = concat (map (\<lambda>i. map (\<lambda>j. (i, j)) [c0..<c0 + 3]) [r0..<r0 + 3])"

definition all_cells :: "(nat \<times> nat) list" where
  "all_cells = concat (map (\<lambda>i. map (\<lambda>j. (i, j)) [0..<9]) [0..<9])"

definition digits :: "int list" where
  "digits = [1..9]"

section \<open>Board state\<close>

text \<open>\<^verbatim>\<open>__init__\<close>: every row is copied with \<^verbatim>\<open>row[:]\<close>, the counters start at zero.\<close>

definition init :: "grid \<Rightarrow> solverSudoku" where
  "init b = \<lparr>board = map (\<lambda>row. row) b, steps = 0, backtracks = 0\<rparr>"

text \<open>
  The loop \<^verbatim>\<open>for (i, j) in cells: if self.board[i][j] == num: return False\<close> of
  \<^verbatim>\<open>is_valid\<close>; the result says whether the loop left through its \<^verbatim>\<open>return\<close>.
\<close>

fun found_in :: "grid \<Rightarrow> int \<Rightarrow> (nat \<times> nat) list \<Rightarrow> error + bool" where
  "found_in b num [] = Inr False"
| "found_in b num ((i, j) # cs) =
     bindE (get_cell b i j) (\<lambda>v. if v = num then Inr True else found_in b num cs)"

definition is_valid :: "grid \<Rightarrow> nat \<Rightarrow> nat \<Rightarrow> int \<Rightarrow> error + bool" where
  "is_valid b row col num =
     bindE (found_in b num (row_cells row)) (\<lambda>in_row.
       if in_row then Inr False
       else bindE (found_in b num (col_cells col)) (\<lambda>in_col.
         if in_col then Inr False
         else
           let box_row = 3 * (row div 3); box_col = 3 * (col div 3) in
           bindE (found_in b num (block_cells box_row box_col)) (\<lambda>in_box.
             if in_box then Inr False else Inr True)))"

section \<open>Possibility tracking\<close>

definition modify_cell :: "'a list list \<Rightarrow> nat \<Rightarrow> nat \<Rightarrow> ('a \<Rightarrow> 'a) \<Rightarrow> error + 'a list list" where
  "modify_cell m i j g = bindE (get_cell m i j) (\<lambda>v. set_cell m i j (g v))"

definition initialize_possibilities :: "grid \<Rightarrow> error + possibilities" where
  "initialize_possibilities b =
     forE all_cells (\<lambda>(i, j) p.
       bindE (get_cell b i j) (\<lambda>v.
         if v = 0 then
           forE digits (\<lambda>num p.
             bindE (is_valid b i j num) (\<lambda>ok.
               if ok then modify_cell p i j (insert num) else Inr p)) p
         else Inr p))
       (replicate 9 (replicate 9 {}))"

definition discard :: "int \<Rightarrow> nat \<times> nat \<Rightarrow> possibilities \<Rightarrow> error + possibilities" where
  "discard num = (\<lambda>(i, j) p. modify_cell p i j (\<lambda>S. S - {num}))"

definition update_possibilities ::
  "possibilities \<Rightarrow> nat \<Rightarrow> nat \<Rightarrow> int \<Rightarrow> error + possibilities" where
  "update_possibilities p row col num =
     bindE (forE (row_cells row) (discard num) p) (\<lambda>p1.
     bindE (forE (col_cells col) (discard num) p1) (\<lambda>p2.
       let box_row = 3 * (row div 3); box_col = 3 * (col div 3) in
       bindE (forE (block_cells box_row box_col) (discard num) p2) (\<lambda>p3.
         modify_cell p3 row col (\<lambda>S. {}))))"

section \<open>Propagation: naked and hidden singles\<close>

text \<open>
  The state of one pass of the \<^verbatim>\<open>while progress\<close> loop: the solver, the possibility
  matrix and the flag \<^verbatim>\<open>progress\<close>.
\<close>

type_synonym pass_state = "solverSudoku \<times> possibilities \<times> bool"

text \<open>
  The four lines every rule runs when it fires: write the digit, update the possibilities,
  set \<^verbatim>\<open>progress\<close>, count the step.
\<close>

definition place :: "nat \<Rightarrow> nat \<Rightarrow> int \<Rightarrow> pass_state \<Rightarrow> error + pass_state" where
  "place i j num = (\<lambda>(s, p, progress).
     bindE (set_cell (board s) i j num) (\<lambda>b'.
     bindE (update_possibilities p i j num) (\<lambda>p'.
       Inr (s\<lparr>board := b', steps := steps s + 1\<rparr>, p', True))))"

definition naked_single :: "nat \<times> nat \<Rightarrow> pass_state \<Rightarrow> error + pass_state" where
  "naked_single = (\<lambda>(i, j) (s, p, progress).
     bindE (get_cell (board s) i j) (\<lambda>v.
       if v = 0 then
         bindE (get_cell p i j) (\<lambda>S.
           if card S = 1 then place i j (the_elem S) (s, p, progress)
           else Inr (s, p, progress))
       else Inr (s, p, progress)))"

text \<open>
  The list \<^verbatim>\<open>candidates\<close> of a hidden-single check: the cells of the group that are empty
  and have \<open>num\<close> among their possibilities, in the order of the scan.  (The source keeps
  the column index for a row, the row index for a column and the pair for a box; the
  model keeps the pair in all three.)
\<close>

fun candidates :: "grid \<Rightarrow> possibilities \<Rightarrow> int \<Rightarrow> (nat \<times> nat) list \<Rightarrow> error + (nat \<times> nat) list" where
  "candidates b p num [] = Inr []"
| "candidates b p num ((i, j) # cs) =
     bindE (get_cell b i j) (\<lambda>v.
       if v = 0 then
         bindE (get_cell p i j) (\<lambda>S.
           bindE (candidates b p num cs) (\<lambda>rest.
             Inr (if num \<in> S then (i, j) # rest else rest)))
       else candidates b p num cs)"

definition hidden_single :: "(nat \<times> nat) list \<Rightarrow> int \<Rightarrow> pass_state \<Rightarrow> error + pass_state" where
  "hidden_single cells num = (\<lambda>(s, p, progress).
     bindE (candidates (board s) p num cells) (\<lambda>cands.
       if length cands = 1 then
         (case cands ! 0 of (i, j) \<Rightarrow> place i j num (s, p, progress))
       else Inr (s, p, progress)))"

definition box_group :: "nat \<Rightarrow> (nat \<times> nat) list" where
  "box_group box =
     (let start_row = 3 * (box div 3); start_col = 3 * (box mod 3)
      in block_cells start_row start_col)"

definition greedy_pass :: "solverSudoku \<times> possibilities \<Rightarrow> error + pass_state" where
  "greedy_pass = (\<lambda>(s, p).
     bindE (forE all_cells naked_single (s, p, False)) (\<lambda>st1.
     bindE (forE [0..<9] (\<lambda>i. forE digits (hidden_single (row_cells i))) st1) (\<lambda>st2.
     bindE (forE [0..<9] (\<lambda>j. forE digits (hidden_single (col_cells j))) st2) (\<lambda>st3.
       forE [0..<9] (\<lambda>box. forE digits (hidden_single (box_group box))) st3))))"

text \<open>
  The \<^verbatim>\<open>while progress\<close> loop.  Nothing in the loop itself bounds the number of passes, so
  the model is a partial function: \<open>None\<close> is a loop that never ends.
\<close>

partial_function (option) greedy_loop ::
  "solverSudoku \<times> possibilities \<Rightarrow> (error + solverSudoku \<times> possibilities) option" where
  "greedy_loop sp =
     (case greedy_pass sp of
        Inl e \<Rightarrow> Some (Inl e)
      | Inr (s', p', progress) \<Rightarrow>
          if progress then greedy_loop (s', p') else Some (Inr (s', p')))"

definition solve_greedy :: "solverSudoku \<Rightarrow> (error + bool \<times> solverSudoku) option" where
  "solve_greedy s =
     (case initialize_possibilities (board s) of
        Inl e \<Rightarrow> Some (Inl e)
      | Inr p \<Rightarrow>
          (case greedy_loop (s, p) of
             None \<Rightarrow> None
           | Some (Inl e) \<Rightarrow> Some (Inl e)
           | Some (Inr (s', p')) \<Rightarrow>
               Some (bindE (found_in (board s') 0 all_cells) (\<lambda>has_empty.
                 Inr (\<not> has_empty, s')))))"

section \<open>Backtracking search with the most-constrained-cell heuristic\<close>

definition count_valid :: "grid \<Rightarrow> nat \<Rightarrow> nat \<Rightarrow> error + int" where
  "count_valid b i j =
     forE digits (\<lambda>num n. bindE (is_valid b i j num) (\<lambda>ok. Inr (if ok then n + 1 else n))) 0"

definition find_most_constrained_cell :: "grid \<Rightarrow> error + (nat \<times> nat) option" where
  "find_most_constrained_cell b =
     bindE (forE all_cells (\<lambda>(i, j) (min_possibilities, best_cell).
         bindE (get_cell b i j) (\<lambda>v.
           if v = 0 then
             bindE (count_valid b i j) (\<lambda>n.
               if n < min_possibilities then Inr (n, Some (i, j))
               else Inr (min_possibilities, best_cell))
           else Inr (min_possibilities, best_cell)))
       (10, None))
     (\<lambda>(min_possibilities, best_cell). Inr best_cell)"

lemma bindE_cong [fundef_cong]:
  "m = m' \<Longrightarrow> (\<And>v. m' = Inr v \<Longrightarrow> f v = f' v) \<Longrightarrow> bindE m f = bindE m' f'"
  by (auto simp: bindE_def split: sum.splits)

text \<open>
  \<^verbatim>\<open>solve_smart_backtracking\<close> calls itself inside its loop over the digits.  The first
  argument is the number of nested invocations the interpreter still allows; at zero the
  call raises \<^verbatim>\<open>RecursionError\<close>.  \<open>try_digits\<close> is the loop \<^verbatim>\<open>for num in range(1, 10)\<close>
  from the digit at the head of the list on.
\<close>

fun solve_smart_backtracking :: "nat \<Rightarrow> solverSudoku \<Rightarrow> error + bool \<times> solverSudoku"
  and try_digits :: "nat \<Rightarrow> nat \<Rightarrow> nat \<Rightarrow> int list \<Rightarrow> solverSudoku \<Rightarrow> error + bool \<times> solverSudoku"
where
  "solve_smart_backtracking 0 s = Inl RecursionError"
| "solve_smart_backtracking (Suc depth) s =
     (let s1 = s\<lparr>steps := steps s + 1\<rparr> in
      bindE (find_most_constrained_cell (board s1)) (\<lambda>cell.
        case cell of
          None \<Rightarrow> Inr (True, s1)
        | Some (row, col) \<Rightarrow> try_digits depth row col digits s1))"
| "try_digits depth row col [] s = Inr (False, s)"
| "try_digits depth row col (num # nums) s =
     bindE (is_valid (board s) row col num) (\<lambda>ok.
       if ok then
         bindE (set_cell (board s) row col num) (\<lambda>b1.
         bindE (solve_smart_backtracking depth (s\<lparr>board := b1\<rparr>)) (\<lambda>(solved, s2).
           if solved then Inr (True, s2)
           else
             bindE (set_cell (board s2) row col 0) (\<lambda>b3.
               try_digits depth row col nums
                 (s2\<lparr>board := b3, backtracks := backtracks s2 + 1\<rparr>))))
       else try_digits depth row col nums s)"

definition solve_combined :: "nat \<Rightarrow> solverSudoku \<Rightarrow> (error + bool \<times> solverSudoku) option" where
  "solve_combined depth s =
     (case solve_greedy s of
        None \<Rightarrow> None
      | Some (Inl e) \<Rightarrow> Some (Inl e)
      | Some (Inr (complete, s')) \<Rightarrow>
          if complete then Some (Inr (True, s')) else Some (solve_smart_backtracking depth s'))"

text \<open>
  \<^verbatim>\<open>getFinishedBoard\<close> reads \<^verbatim>\<open>board[i][j]\<close> for \<open>i\<close> and \<open>j\<close> below \<^verbatim>\<open>len(board)\<close> into a new
  list and reshapes it to 9 rows of 9; the array it returns is modelled by the list of its
  rows.  It writes nothing to the solver.
\<close>

definition getFinishedBoard :: "solverSudoku \<Rightarrow> error + grid" where
  "getFinishedBoard s =
     (let b = board s; n = length b in
      bindE (forE (concat (map (\<lambda>i. map (\<lambda>j. (i, j)) [0..<n]) [0..<n]))
               (\<lambda>(i, j) newBoard. bindE (get_cell b i j) (\<lambda>v. Inr (newBoard @ [v]))) [])
        (\<lambda>newBoard.
           if length newBoard = 81
           then Inr (map (\<lambda>i. take 9 (drop (9 * i) newBoard)) [0..<9])
           else Inl ValueError))"

section \<open>Well-formed grids and the cells of a group\<close>


definition wf_grid :: "'a list list \<Rightarrow> bool" where
  "wf_grid m \<longleftrightarrow> length m = 9 \<and> (\<forall>row \<in> set m. length row = 9)"

lemma bindE_Inr [simp]: "bindE (Inr v) f = f v"
  by (simp add: bindE_def)

lemma bindE_Inl [simp]: "bindE (Inl e) f = Inl e"
  by (simp add: bindE_def)

lemma wf_grid_length: "wf_grid m \<Longrightarrow> length m = 9"
  by (simp add: wf_grid_def)

lemma wf_grid_row: "wf_grid m \<Longrightarrow> i < 9 \<Longrightarrow> length (m ! i) = 9"
  by (simp add: wf_grid_def)

lemma get_cell_wf [simp]: "wf_grid m \<Longrightarrow> i < 9 \<Longrightarrow> j < 9 \<Longrightarrow> get_cell m i j = Inr (m ! i ! j)"
  by (simp add: get_cell_def wf_grid_def)

lemma set_cell_wf [simp]:
  "wf_grid m \<Longrightarrow> i < 9 \<Longrightarrow> j < 9 \<Longrightarrow> set_cell m i j v = Inr (m[i := (m ! i)[j := v]])"
  by (simp add: set_cell_def wf_grid_def)

lemma wf_grid_nth: "wf_grid m \<longleftrightarrow> length m = 9 \<and> (\<forall>i<9. length (m ! i) = 9)"
  by (auto simp: wf_grid_def all_set_conv_all_nth)

lemma wf_grid_update [simp]: "wf_grid m \<Longrightarrow> wf_grid (m[i := (m ! i)[j := v]])"
  by (cases "i < length m") (auto simp: wf_grid_nth nth_list_update)

lemma nth_grid_update:
  "wf_grid m \<Longrightarrow> i < 9 \<Longrightarrow> j < 9 \<Longrightarrow> i' < 9 \<Longrightarrow> j' < 9 \<Longrightarrow>
   m[i := (m ! i)[j := v]] ! i' ! j' = (if i' = i \<and> j' = j then v else m ! i' ! j')"
  by (auto simp: wf_grid_def nth_list_update)

lemma set_row_cells: "set (row_cells r) = {(r, j) | j. j < 9}"
  by (auto simp: row_cells_def)

lemma set_col_cells: "set (col_cells c) = {(i, c) | i. i < 9}"
  by (auto simp: col_cells_def)

lemma set_block_cells:
  "set (block_cells r0 c0) = {(i, j). r0 \<le> i \<and> i < r0 + 3 \<and> c0 \<le> j \<and> j < c0 + 3}"
  by (auto simp: block_cells_def)

lemma set_all_cells: "set all_cells = {(i, j). i < 9 \<and> j < 9}"
  by (auto simp: all_cells_def)

definition in_range :: "(nat \<times> nat) list \<Rightarrow> bool" where
  "in_range cs \<longleftrightarrow> (\<forall>(i, j) \<in> set cs. i < 9 \<and> j < 9)"

lemma found_in_wf:
  "wf_grid b \<Longrightarrow> in_range cs \<Longrightarrow>
   found_in b num cs = Inr (\<exists>(i, j) \<in> set cs. b ! i ! j = num)"
  by (induction cs) (auto simp: in_range_def)
 
lemma in_range_row: "r < 9 \<Longrightarrow> in_range (row_cells r)"
  by (auto simp: in_range_def set_row_cells)
lemma in_range_col: "c < 9 \<Longrightarrow> in_range (col_cells c)"
  by (auto simp: in_range_def set_col_cells)
lemma in_range_block: "r0 + 3 \<le> 9 \<Longrightarrow> c0 + 3 \<le> 9 \<Longrightarrow> in_range (block_cells r0 c0)"
  by (auto simp: in_range_def set_block_cells)
lemma in_range_all: "in_range all_cells"
  by (auto simp: in_range_def set_all_cells)

text \<open>Two cells share a row, a column or a box.\<close>
definition peers :: "nat \<times> nat \<Rightarrow> nat \<times> nat \<Rightarrow> bool" where
  "peers = (\<lambda>(i, j) (r, c). i = r \<or> j = c \<or> (i div 3 = r div 3 \<and> j div 3 = c div 3))"

definition free_for :: "grid \<Rightarrow> nat \<Rightarrow> nat \<Rightarrow> int \<Rightarrow> bool" where
  "free_for b r c d \<longleftrightarrow> (\<forall>i<9. \<forall>j<9. peers (i, j) (r, c) \<longrightarrow> b ! i ! j \<noteq> d)"

lemma box_mem: "(3 * (r div 3) \<le> i \<and> i < 3 * (r div 3) + 3) \<longleftrightarrow> i div 3 = r div (3::nat)"
proof
  assume "3 * (r div 3) \<le> i \<and> i < 3 * (r div 3) + 3"
  then show "i div 3 = r div 3"
    by (intro div_nat_eqI) auto
next
  assume h: "i div 3 = r div 3"
  have "3 * (i div 3) \<le> i" "i < 3 * (i div 3) + 3"
    using div_mult_mod_eq[of i 3] by simp_all
  with h show "3 * (r div 3) \<le> i \<and> i < 3 * (r div 3) + 3" by simp
qed

lemma div3_lt9:
  assumes "i div 3 = r div 3" and "r < 9"
  shows "i < (9::nat)"
proof -
  from assms(2) have "r div 3 < 3" by (intro less_mult_imp_div_less) simp
  with assms(1) box_mem[of r i] show ?thesis by simp
qed

lemma mem_box_cells:
  "(i, j) \<in> set (block_cells (3 * (r div 3)) (3 * (c div 3))) \<longleftrightarrow>
     i div 3 = r div 3 \<and> j div 3 = c div 3"
  using box_mem[of r i, symmetric] box_mem[of c j, symmetric]
  by (simp add: set_block_cells)

lemma in_range_box: "r < 9 \<Longrightarrow> c < 9 \<Longrightarrow> in_range (block_cells (3 * (r div 3)) (3 * (c div 3)))"
  by (auto simp: in_range_def mem_box_cells dest: div3_lt9)

lemma free_for_groups:
  assumes "r < 9" "c < 9"
  shows "free_for b r c d \<longleftrightarrow>
     \<not> (\<exists>(i, j) \<in> set (row_cells r). b ! i ! j = d) \<and>
     \<not> (\<exists>(i, j) \<in> set (col_cells c). b ! i ! j = d) \<and>
     \<not> (\<exists>(i, j) \<in> set (block_cells (3 * (r div 3)) (3 * (c div 3))). b ! i ! j = d)"
    (is "?L \<longleftrightarrow> ?R")
proof
  assume L: ?L
  show ?R
  proof (intro conjI notI)
    assume "\<exists>(i, j) \<in> set (row_cells r). b ! i ! j = d"
    then obtain j where "j < 9" "b ! r ! j = d" by (auto simp: set_row_cells)
    with L assms show False by (auto simp: free_for_def peers_def)
  next
    assume "\<exists>(i, j) \<in> set (col_cells c). b ! i ! j = d"
    then obtain i where "i < 9" "b ! i ! c = d" by (auto simp: set_col_cells)
    with L assms show False by (auto simp: free_for_def peers_def)
  next
    assume "\<exists>(i, j) \<in> set (block_cells (3 * (r div 3)) (3 * (c div 3))). b ! i ! j = d"
    then obtain i j where ij: "i div 3 = r div 3" "j div 3 = c div 3" "b ! i ! j = d"
      by (auto simp: mem_box_cells)
    then have "i < 9" "j < 9" using assms by (auto dest: div3_lt9)
    with L ij show False by (auto simp: free_for_def peers_def)
  qed
next
  assume R: ?R
  show ?L unfolding free_for_def
  proof (intro allI impI)
    fix i j assume ij: "i < 9" "j < 9" "peers (i, j) (r, c)"
    from ij(3) consider "i = r" | "j = c" | "i div 3 = r div 3 \<and> j div 3 = c div 3"
      by (auto simp: peers_def)
    then show "b ! i ! j \<noteq> d"
    proof cases
      case 1
      with ij have "(i, j) \<in> set (row_cells r)" by (simp add: set_row_cells)
      with R show ?thesis by blast
    next
      case 2
      with ij have "(i, j) \<in> set (col_cells c)" by (simp add: set_col_cells)
      with R show ?thesis by blast
    next
      case 3
      then have "(i, j) \<in> set (block_cells (3 * (r div 3)) (3 * (c div 3)))"
        by (simp add: mem_box_cells)
      with R show ?thesis by blast
    qed
  qed
qed

lemma is_valid_wf:
  assumes "wf_grid b" "r < 9" "c < 9"
  shows "is_valid b r c d = Inr (free_for b r c d)"
  using assms
  by (simp add: is_valid_def Let_def found_in_wf in_range_row in_range_col in_range_box
      free_for_groups)

section \<open>Example grids\<close>

definition empty_grid :: grid where
  "empty_grid = replicate 9 (replicate 9 0)"

definition puzzle :: grid where
  "puzzle =
    [[5, 3, 0, 0, 7, 0, 0, 0, 0],
     [6, 0, 0, 1, 9, 5, 0, 0, 0],
     [0, 9, 8, 0, 0, 0, 0, 6, 0],
     [8, 0, 0, 0, 6, 0, 0, 0, 3],
     [4, 0, 0, 8, 0, 3, 0, 0, 1],
     [7, 0, 0, 0, 2, 0, 0, 0, 6],
     [0, 6, 0, 0, 0, 0, 2, 8, 0],
     [0, 0, 0, 4, 1, 9, 0, 0, 5],
     [0, 0, 0, 0, 8, 0, 0, 7, 9]]"

lemma wf_empty_grid: "wf_grid empty_grid"
  by (simp add: wf_grid_def empty_grid_def)

lemma wf_puzzle: "wf_grid puzzle"
  by (simp add: wf_grid_def puzzle_def)

section \<open>The validity check\<close>

text \<open>
  Claim C3.  On a 9x9 grid, for a cell \<open>(r, c)\<close> of the grid and a digit \<open>d\<close> from 1 to 9,
  \<open>is_valid\<close> raises nothing and returns false exactly when \<open>d\<close> stands in row \<open>r\<close>, in
  column \<open>c\<close> or in the 3x3 box whose origin is \<open>(3 * (r div 3), 3 * (c div 3))\<close>.  On the
  all-zero grid \<open>is_valid 0 0 d\<close> is true, and once 5 is written at \<open>(0, 0)\<close> the checks of 5
  at \<open>(0, 1)\<close>, \<open>(1, 0)\<close> and \<open>(1, 1)\<close> are false.
\<close>

theorem is_valid_spec:
  assumes "wf_grid b" and "r < 9" and "c < 9" and "1 \<le> d" and "d \<le> 9"
  shows "is_valid b r c d =
           Inr (\<not> ((\<exists>j<9. b ! r ! j = d) \<or> (\<exists>i<9. b ! i ! c = d) \<or>
                    (\<exists>i j. 3 * (r div 3) \<le> i \<and> i < 3 * (r div 3) + 3 \<and>
                           3 * (c div 3) \<le> j \<and> j < 3 * (c div 3) + 3 \<and> b ! i ! j = d)))
         \<and> is_valid empty_grid 0 0 d = Inr True
         \<and> bindE (set_cell empty_grid 0 0 5) (\<lambda>g. is_valid g 0 1 5) = Inr False
         \<and> bindE (set_cell empty_grid 0 0 5) (\<lambda>g. is_valid g 1 0 5) = Inr False
         \<and> bindE (set_cell empty_grid 0 0 5) (\<lambda>g. is_valid g 1 1 5) = Inr False"
proof (intro conjI)
  show "is_valid b r c d =
           Inr (\<not> ((\<exists>j<9. b ! r ! j = d) \<or> (\<exists>i<9. b ! i ! c = d) \<or>
                    (\<exists>i j. 3 * (r div 3) \<le> i \<and> i < 3 * (r div 3) + 3 \<and>
                           3 * (c div 3) \<le> j \<and> j < 3 * (c div 3) + 3 \<and> b ! i ! j = d)))"
    using assms(1-3)
    by (simp add: is_valid_wf free_for_groups set_row_cells set_col_cells set_block_cells)
next
  have "free_for empty_grid 0 0 d"
    using assms(4) by (auto simp: free_for_def empty_grid_def)
  then show "is_valid empty_grid 0 0 d = Inr True"
    by (simp add: is_valid_wf wf_empty_grid)
next
  let ?g = "empty_grid[0 := (empty_grid ! 0)[0 := 5]]"
  have g: "set_cell empty_grid 0 0 5 = Inr ?g" "wf_grid ?g"
    by (simp_all add: wf_empty_grid)
  have g00: "?g ! 0 ! 0 = 5"
    by (simp add: empty_grid_def)
  have "\<not> free_for ?g 0 1 5" "\<not> free_for ?g 1 0 5" "\<not> free_for ?g 1 1 5"
    using g00 by (auto simp: free_for_def peers_def intro!: exI[of _ 0])
  then show "bindE (set_cell empty_grid 0 0 5) (\<lambda>g. is_valid g 0 1 5) = Inr False"
    "bindE (set_cell empty_grid 0 0 5) (\<lambda>g. is_valid g 1 0 5) = Inr False"
    "bindE (set_cell empty_grid 0 0 5) (\<lambda>g. is_valid g 1 1 5) = Inr False"
    using g by (simp_all add: is_valid_wf)
qed

theorem is_valid_spec_witness:
  "wf_grid puzzle \<and> is_valid puzzle 0 2 4 = Inr True \<and> is_valid puzzle 4 4 6 = Inr False
   \<and> is_valid empty_grid 0 0 4 = Inr True"
proof -
  have v: "is_valid puzzle 0 2 4 = Inr True" "is_valid puzzle 4 4 6 = Inr False"
    by code_simp+
  show ?thesis
    using is_valid_spec [of puzzle 0 2 4, OF wf_puzzle] v wf_puzzle by simp
qed

section \<open>Possibility updates\<close>

lemma forE_inv:
  assumes "I s" and "\<And>x s. x \<in> set xs \<Longrightarrow> I s \<Longrightarrow> \<exists>s'. f x s = Inr s' \<and> I s'"
  shows "\<exists>s'. forE xs f s = Inr s' \<and> I s'"
  using assms
proof (induction xs arbitrary: s)
  case Nil
  then show ?case by simp
next
  case (Cons x xs)
  from Cons.prems obtain s1 where s1: "f x s = Inr s1" "I s1"
    by (meson list.set_intros(1))
  have "\<exists>s'. forE xs f s1 = Inr s' \<and> I s'"
    using s1(2) Cons.prems(2) by (intro Cons.IH) auto
  with s1 show ?case by simp
qed

lemma grid_eqI:
  assumes "wf_grid m" and "wf_grid m'" and "\<And>i j. i < 9 \<Longrightarrow> j < 9 \<Longrightarrow> m ! i ! j = m' ! i ! j"
  shows "m = m'"
proof (rule nth_equalityI)
  show "length m = length m'" using assms by (simp add: wf_grid_def)
next
  fix i assume "i < length m"
  then have i: "i < 9" using assms(1) by (simp add: wf_grid_def)
  show "m ! i = m' ! i"
    using assms i by (intro nth_equalityI) (simp_all add: wf_grid_nth)
qed

lemma modify_cell_wf [simp]:
  "wf_grid m \<Longrightarrow> i < 9 \<Longrightarrow> j < 9 \<Longrightarrow>
   modify_cell m i j g = Inr (m[i := (m ! i)[j := g (m ! i ! j)]])"
  by (simp add: modify_cell_def)

lemma discard_loop:
  assumes "wf_grid p" and "in_range cs"
  shows "\<exists>p'. forE cs (discard num) p = Inr p' \<and> wf_grid p' \<and>
           (\<forall>i<9. \<forall>j<9. p' ! i ! j = (if (i, j) \<in> set cs then p ! i ! j - {num} else p ! i ! j))"
  using assms
proof (induction cs arbitrary: p)
  case Nil
  then show ?case by simp
next
  case (Cons x cs)
  obtain a b where x: "x = (a, b)" by (cases x)
  with Cons.prems have ab: "a < 9" "b < 9" and cs: "in_range cs"
    by (auto simp: in_range_def)
  let ?p1 = "p[a := (p ! a)[b := p ! a ! b - {num}]]"
  have p1: "discard num x p = Inr ?p1" "wf_grid ?p1"
    using Cons.prems(1) ab x by (simp_all add: discard_def)
  from Cons.IH[OF p1(2) cs] obtain p' where p':
    "forE cs (discard num) ?p1 = Inr p'" "wf_grid p'"
    "\<forall>i<9. \<forall>j<9. p' ! i ! j = (if (i, j) \<in> set cs then ?p1 ! i ! j - {num} else ?p1 ! i ! j)"
    by blast
  have "\<forall>i<9. \<forall>j<9. p' ! i ! j = (if (i, j) \<in> set (x # cs) then p ! i ! j - {num} else p ! i ! j)"
    using p'(3) Cons.prems(1) ab x by (auto simp: nth_grid_update)
  with p1 p' show ?case by simp
qed

lemma peers_refl: "peers x x"
  by (cases x) (simp add: peers_def)

lemma peers_sym: "peers x y \<Longrightarrow> peers y x"
  by (cases x, cases y) (auto simp: peers_def)

lemma peers_groups:
  "peers (i, j) (r, c) \<longleftrightarrow>
     (i = r \<or> j = c \<or> (i, j) \<in> set (block_cells (3 * (r div 3)) (3 * (c div 3))))"
  by (simp add: peers_def mem_box_cells)

lemma update_possibilities_wf:
  assumes "wf_grid p" and "r < 9" and "c < 9"
  shows "\<exists>p'. update_possibilities p r c d = Inr p' \<and> wf_grid p' \<and>
           (\<forall>i<9. \<forall>j<9. p' ! i ! j =
              (if (i, j) = (r, c) then {}
               else if peers (i, j) (r, c) then p ! i ! j - {d} else p ! i ! j))"
proof -
  from discard_loop[OF assms(1) in_range_row[OF assms(2)], of d] obtain p1 where p1:
    "forE (row_cells r) (discard d) p = Inr p1" "wf_grid p1"
    "\<forall>i<9. \<forall>j<9. p1 ! i ! j = (if (i, j) \<in> set (row_cells r) then p ! i ! j - {d} else p ! i ! j)"
    by blast
  from discard_loop[OF p1(2) in_range_col[OF assms(3)], of d] obtain p2 where p2:
    "forE (col_cells c) (discard d) p1 = Inr p2" "wf_grid p2"
    "\<forall>i<9. \<forall>j<9. p2 ! i ! j = (if (i, j) \<in> set (col_cells c) then p1 ! i ! j - {d} else p1 ! i ! j)"
    by blast
  let ?box = "block_cells (3 * (r div 3)) (3 * (c div 3))"
  from discard_loop[OF p2(2) in_range_box[OF assms(2,3)], of d] obtain p3 where p3:
    "forE ?box (discard d) p2 = Inr p3" "wf_grid p3"
    "\<forall>i<9. \<forall>j<9. p3 ! i ! j = (if (i, j) \<in> set ?box then p2 ! i ! j - {d} else p2 ! i ! j)"
    by blast
  let ?p' = "p3[r := (p3 ! r)[c := {}]]"
  have run: "update_possibilities p r c d = Inr ?p'"
    using p1(1) p2(1) p3(1,2) assms(2,3) by (simp add: update_possibilities_def Let_def)
  have cells: "p' ! i ! j =
      (if (i, j) = (r, c) then {}
       else if peers (i, j) (r, c) then p ! i ! j - {d} else p ! i ! j)"
    if "i < 9" "j < 9" "p' = ?p'" for i j p'
    using that p1(3) p2(3) p3(2,3) assms(2,3)
    by (auto simp: nth_grid_update peers_groups set_row_cells set_col_cells)
  show ?thesis
    using run p3(2) cells by auto
qed

definition full_possibilities :: possibilities where
  "full_possibilities = replicate 9 (replicate 9 {1, 2, 3, 4, 5, 6, 7, 8, 9})"

text \<open>
  Claim C7.  On a 9x9 possibility matrix and a cell \<open>(r, c)\<close> of it, \<open>update_possibilities\<close>
  raises nothing; in the matrix it leaves, \<open>d\<close> is in no set of row \<open>r\<close>, of column \<open>c\<close> or
  of the box of \<open>(r, c)\<close>, the set at \<open>(r, c)\<close> is empty, every other set of these three
  groups is the old one without \<open>d\<close>, every set outside them is the old one, and a second
  update with the same arguments changes nothing.
\<close>

theorem update_possibilities_spec:
  assumes "wf_grid p" and "r < 9" and "c < 9"
  shows "\<exists>p'. update_possibilities p r c d = Inr p' \<and> wf_grid p' \<and>
           (\<forall>j<9. d \<notin> p' ! r ! j) \<and>
           (\<forall>i<9. d \<notin> p' ! i ! c) \<and>
           (\<forall>i j. 3 * (r div 3) \<le> i \<and> i < 3 * (r div 3) + 3 \<and>
                  3 * (c div 3) \<le> j \<and> j < 3 * (c div 3) + 3 \<longrightarrow> d \<notin> p' ! i ! j) \<and>
           p' ! r ! c = {} \<and>
           (\<forall>i<9. \<forall>j<9. (i, j) \<noteq> (r, c) \<longrightarrow> p' ! i ! j =
              (if i = r \<or> j = c \<or> (i div 3 = r div 3 \<and> j div 3 = c div 3)
               then p ! i ! j - {d} else p ! i ! j)) \<and>
           update_possibilities p' r c d = Inr p'"
proof -
  from update_possibilities_wf[OF assms, of d] obtain p' where p':
    "update_possibilities p r c d = Inr p'" "wf_grid p'"
    "\<forall>i<9. \<forall>j<9. p' ! i ! j =
       (if (i, j) = (r, c) then {}
        else if peers (i, j) (r, c) then p ! i ! j - {d} else p ! i ! j)"
    by blast
  from update_possibilities_wf[OF p'(2) assms(2,3), of d] obtain p'' where p'':
    "update_possibilities p' r c d = Inr p''" "wf_grid p''"
    "\<forall>i<9. \<forall>j<9. p'' ! i ! j =
       (if (i, j) = (r, c) then {}
        else if peers (i, j) (r, c) then p' ! i ! j - {d} else p' ! i ! j)"
    by blast
  have "p'' = p'"
    using p''(2) p'(2)
  proof (rule grid_eqI)
    fix i j :: nat assume "i < 9" "j < 9"
    then show "p'' ! i ! j = p' ! i ! j"
      using p'(3) p''(3) by auto
  qed
  with p''(1) have idem: "update_possibilities p' r c d = Inr p'" by simp
  have row: "\<forall>j<9. d \<notin> p' ! r ! j"
    using p'(3) assms(2) by (auto simp: peers_def)
  have col: "\<forall>i<9. d \<notin> p' ! i ! c"
    using p'(3) assms(3) by (auto simp: peers_def)
  have box: "\<forall>i j. 3 * (r div 3) \<le> i \<and> i < 3 * (r div 3) + 3 \<and>
                  3 * (c div 3) \<le> j \<and> j < 3 * (c div 3) + 3 \<longrightarrow> d \<notin> p' ! i ! j"
  proof (intro allI impI)
    fix i j
    assume h: "3 * (r div 3) \<le> i \<and> i < 3 * (r div 3) + 3 \<and>
               3 * (c div 3) \<le> j \<and> j < 3 * (c div 3) + 3"
    then have d3: "i div 3 = r div 3" "j div 3 = c div 3"
      using box_mem[of r i] box_mem[of c j] by auto
    then have "i < 9" "j < 9" using assms(2,3) by (auto dest: div3_lt9)
    with p'(3) d3 show "d \<notin> p' ! i ! j" by (auto simp: peers_def)
  qed
  have self: "p' ! r ! c = {}"
    using p'(3) assms(2,3) by simp
  have others: "\<forall>i<9. \<forall>j<9. (i, j) \<noteq> (r, c) \<longrightarrow> p' ! i ! j =
              (if i = r \<or> j = c \<or> (i div 3 = r div 3 \<and> j div 3 = c div 3)
               then p ! i ! j - {d} else p ! i ! j)"
    using p'(3) by (auto simp: peers_def)
  show ?thesis
    using p'(1,2) row col box self others idem by blast
qed


theorem update_possibilities_spec_witness:
  "\<exists>p'. update_possibilities full_possibilities 4 4 5 = Inr p' \<and>
        p' ! 4 ! 4 = {} \<and> p' ! 4 ! 0 = {1, 2, 3, 4, 6, 7, 8, 9} \<and>
        p' ! 3 ! 5 = {1, 2, 3, 4, 6, 7, 8, 9} \<and> p' ! 0 ! 0 = {1, 2, 3, 4, 5, 6, 7, 8, 9} \<and>
        update_possibilities p' 4 4 5 = Inr p'"
proof -
  have wf: "wf_grid full_possibilities"
    by (simp add: wf_grid_def full_possibilities_def)
  have less: "(4::nat) < 9" by simp
  from update_possibilities_spec [OF wf less less, of 5] obtain p' where p':
    "update_possibilities full_possibilities 4 4 5 = Inr p'"
    and self: "p' ! 4 ! 4 = {}"
    and others: "\<forall>i<9. \<forall>j<9. (i, j) \<noteq> (4, 4) \<longrightarrow> p' ! i ! j =
        (if i = 4 \<or> j = 4 \<or> (i div 3 = 4 div 3 \<and> j div 3 = 4 div 3)
         then full_possibilities ! i ! j - {5} else full_possibilities ! i ! j)"
    and idem: "update_possibilities p' 4 4 5 = Inr p'"
    by blast
  have f: "full_possibilities ! i ! j = {1, 2, 3, 4, 5, 6, 7, 8, 9}" if "i < 9" "j < 9" for i j
    using that by (simp add: full_possibilities_def)
  have d: "{1, 2, 3, 4, 5, 6, 7, 8, 9} - {5} = {1, 2, 3, 4, 6, 7, 8, (9::int)}"
    by auto
  have "p' ! 4 ! 0 = full_possibilities ! 4 ! 0 - {5}"
    using others [rule_format, of 4 0] by simp
  then have c1: "p' ! 4 ! 0 = {1, 2, 3, 4, 6, 7, 8, 9}"
    using f [of 4 0] d by simp
  have "p' ! 3 ! 5 = full_possibilities ! 3 ! 5 - {5}"
    using others [rule_format, of 3 5] by simp
  then have c2: "p' ! 3 ! 5 = {1, 2, 3, 4, 6, 7, 8, 9}"
    using f [of 3 5] d by simp
  have "p' ! 0 ! 0 = full_possibilities ! 0 ! 0"
    using others [rule_format, of 0 0] by simp
  then have c3: "p' ! 0 ! 0 = {1, 2, 3, 4, 5, 6, 7, 8, 9}"
    using f [of 0 0] by simp
  from p' self c1 c2 c3 idem show ?thesis by blast
qed

section \<open>The most constrained cell\<close>

definition legal_count :: "grid \<Rightarrow> nat \<Rightarrow> nat \<Rightarrow> nat" where
  "legal_count b i j = length (filter (\<lambda>d. is_valid b i j d = Inr True) digits)"

text \<open>Row-major order of two cells: \<open>x\<close> is visited no later than \<open>y\<close>.\<close>
definition row_major_le :: "nat \<times> nat \<Rightarrow> nat \<times> nat \<Rightarrow> bool" where
  "row_major_le = (\<lambda>(r, c) (i, j). r < i \<or> (r = i \<and> c \<le> j))"

lemma count_loop:
  assumes "wf_grid b" and "i < 9" and "j < 9"
  shows "forE ds (\<lambda>num n. bindE (is_valid b i j num) (\<lambda>ok. Inr (if ok then n + 1 else n))) n =
         Inr (n + int (length (filter (\<lambda>d. is_valid b i j d = Inr True) ds)))"
  using assms by (induction ds arbitrary: n) (simp_all add: is_valid_wf)

lemma count_valid_wf:
  "wf_grid b \<Longrightarrow> i < 9 \<Longrightarrow> j < 9 \<Longrightarrow> count_valid b i j = Inr (int (legal_count b i j))"
  by (simp add: count_valid_def legal_count_def count_loop)

lemma legal_count_le: "legal_count b i j \<le> 9"
proof -
  have "legal_count b i j \<le> length digits"
    unfolding legal_count_def by (rule length_filter_le)
  then show ?thesis by (simp add: digits_def)
qed

definition mcv_step :: "grid \<Rightarrow> nat \<times> nat \<Rightarrow> int \<times> (nat \<times> nat) option \<Rightarrow> error + int \<times> (nat \<times> nat) option" where
  "mcv_step b = (\<lambda>(i, j) (min_possibilities, best_cell).
         bindE (get_cell b i j) (\<lambda>v.
           if v = 0 then
             bindE (count_valid b i j) (\<lambda>n.
               if n < min_possibilities then Inr (n, Some (i, j))
               else Inr (min_possibilities, best_cell))
           else Inr (min_possibilities, best_cell)))"

lemma find_most_constrained_cell_step:
  "find_most_constrained_cell b =
     bindE (forE all_cells (mcv_step b) (10, None)) (\<lambda>(m, best). Inr best)"
  by (simp add: find_most_constrained_cell_def mcv_step_def)

lemma mcv_step_wf:
  assumes "wf_grid b" and "i < 9" and "j < 9"
  shows "mcv_step b (i, j) (m, best) =
     Inr (if b ! i ! j = 0 \<and> int (legal_count b i j) < m
          then (int (legal_count b i j), Some (i, j)) else (m, best))"
  using assms by (simp add: mcv_step_def count_valid_wf)

lemma mcv_loop:
  assumes "wf_grid b" and "in_range cs"
  shows "\<exists>m' best'. forE cs (mcv_step b) (m, best) = Inr (m', best') \<and> m' \<le> m \<and>
     (\<forall>(i, j) \<in> set cs. b ! i ! j = 0 \<longrightarrow> m' \<le> int (legal_count b i j)) \<and>
     (m' = m \<longrightarrow> best' = best) \<and>
     (m' < m \<longrightarrow> (\<exists>pre r c post. cs = pre @ (r, c) # post \<and> best' = Some (r, c) \<and>
         b ! r ! c = 0 \<and> int (legal_count b r c) = m' \<and>
         (\<forall>(i, j) \<in> set pre. b ! i ! j = 0 \<longrightarrow> m' < int (legal_count b i j))))"
  using assms(2)
proof (induction cs arbitrary: m best)
  case Nil
  then show ?case by simp
next
  case (Cons x cs)
  obtain a d where x: "x = (a, d)" by (cases x)
  with Cons.prems have ad: "a < 9" "d < 9" and cs: "in_range cs"
    by (auto simp: in_range_def)
  let ?k = "int (legal_count b a d)"
  let ?upd = "b ! a ! d = 0 \<and> ?k < m"
  let ?m1 = "if ?upd then ?k else m"
  let ?b1 = "if ?upd then Some (a, d) else best"
  have step: "mcv_step b x (m, best) = Inr (?m1, ?b1)"
    using assms(1) ad x by (simp add: mcv_step_wf)
  from Cons.IH[OF cs, of ?m1 ?b1] obtain m' best' where IH:
    "forE cs (mcv_step b) (?m1, ?b1) = Inr (m', best')" "m' \<le> ?m1"
    "\<forall>(i, j) \<in> set cs. b ! i ! j = 0 \<longrightarrow> m' \<le> int (legal_count b i j)"
    "m' = ?m1 \<longrightarrow> best' = ?b1"
    "m' < ?m1 \<longrightarrow> (\<exists>pre r c post. cs = pre @ (r, c) # post \<and> best' = Some (r, c) \<and>
         b ! r ! c = 0 \<and> int (legal_count b r c) = m' \<and>
         (\<forall>(i, j) \<in> set pre. b ! i ! j = 0 \<longrightarrow> m' < int (legal_count b i j)))"
    by blast
  have run: "forE (x # cs) (mcv_step b) (m, best) = Inr (m', best')"
    using step IH(1) by simp
  have le: "m' \<le> m" using IH(2) by (auto split: if_splits)
  have lower: "\<forall>(i, j) \<in> set (x # cs). b ! i ! j = 0 \<longrightarrow> m' \<le> int (legal_count b i j)"
    using IH(2,3) x by (auto split: if_splits)
  have same: "m' = m \<longrightarrow> best' = best"
    using IH(2,4) by (auto split: if_splits)
  have dec: "\<exists>pre r c post. x # cs = pre @ (r, c) # post \<and> best' = Some (r, c) \<and>
         b ! r ! c = 0 \<and> int (legal_count b r c) = m' \<and>
         (\<forall>(i, j) \<in> set pre. b ! i ! j = 0 \<longrightarrow> m' < int (legal_count b i j))" if lt: "m' < m"
  proof (cases "m' < ?m1")
    case True
    with IH(5) obtain pre r c post where p: "cs = pre @ (r, c) # post" "best' = Some (r, c)"
      "b ! r ! c = 0" "int (legal_count b r c) = m'"
      "\<forall>(i, j) \<in> set pre. b ! i ! j = 0 \<longrightarrow> m' < int (legal_count b i j)"
      by blast
    have "b ! a ! d = 0 \<longrightarrow> m' < ?k"
      using True by (auto split: if_splits)
    with p(5) x have "\<forall>(i, j) \<in> set (x # pre). b ! i ! j = 0 \<longrightarrow> m' < int (legal_count b i j)"
      by auto
    moreover have "x # cs = (x # pre) @ (r, c) # post" using p(1) by simp
    ultimately show ?thesis using p(2,3,4) by blast
  next
    case False
    with IH(2) have eq: "m' = ?m1" by simp
    with lt have upd: ?upd by (auto split: if_splits)
    with eq IH(4) have "best' = Some (a, d)" "m' = ?k" by auto
    with upd x have "x # cs = [] @ (a, d) # cs \<and> best' = Some (a, d) \<and>
         b ! a ! d = 0 \<and> int (legal_count b a d) = m' \<and>
         (\<forall>(i, j) \<in> set []. b ! i ! j = 0 \<longrightarrow> m' < int (legal_count b i j))"
      by simp
    then show ?thesis by blast
  qed
  from run le lower same dec show ?case by blast
qed


lemma all_cells_index: "map (\<lambda>(i, j). 9 * i + j) all_cells = [0..<81]"
  by code_simp

lemma all_cells_order:
  assumes "all_cells = pre @ x # post" and "y \<in> set post"
  shows "row_major_le x y"
proof -
  let ?idx = "\<lambda>(i, j). 9 * i + (j::nat)"
  have "sorted (map ?idx all_cells)" "distinct (map ?idx all_cells)"
    by (simp_all add: all_cells_index)
  then have "sorted (map ?idx (pre @ x # post))" "distinct (map ?idx (pre @ x # post))"
    by (simp_all only: assms(1))
  with assms(2) have "?idx x \<le> ?idx y" "?idx x \<noteq> ?idx y"
    by (auto simp: sorted_append)
  moreover have "x \<in> set (pre @ x # post)" "y \<in> set (pre @ x # post)"
    using assms(2) by simp_all
  then have "x \<in> set all_cells" "y \<in> set all_cells"
    by (simp_all only: assms(1))
  ultimately show ?thesis
    by (cases x, cases y) (auto simp: row_major_le_def set_all_cells)
qed

lemma find_most_constrained_cell_wf:
  assumes "wf_grid b"
  shows "\<exists>res. find_most_constrained_cell b = Inr res \<and>
     (res = None \<longleftrightarrow> (\<forall>i<9. \<forall>j<9. b ! i ! j \<noteq> 0)) \<and>
     (\<forall>r c. res = Some (r, c) \<longrightarrow> r < 9 \<and> c < 9 \<and> b ! r ! c = 0 \<and>
        (\<forall>i<9. \<forall>j<9. b ! i ! j = 0 \<longrightarrow> legal_count b r c \<le> legal_count b i j \<and>
              (legal_count b i j = legal_count b r c \<longrightarrow> row_major_le (r, c) (i, j))))"
proof -
  from mcv_loop[OF assms in_range_all, of 10 None] obtain m' best' where L:
    "forE all_cells (mcv_step b) (10, None) = Inr (m', best')" "m' \<le> 10"
    "\<forall>(i, j) \<in> set all_cells. b ! i ! j = 0 \<longrightarrow> m' \<le> int (legal_count b i j)"
    "m' = 10 \<longrightarrow> best' = None"
    "m' < 10 \<longrightarrow> (\<exists>pre r c post. all_cells = pre @ (r, c) # post \<and> best' = Some (r, c) \<and>
         b ! r ! c = 0 \<and> int (legal_count b r c) = m' \<and>
         (\<forall>(i, j) \<in> set pre. b ! i ! j = 0 \<longrightarrow> m' < int (legal_count b i j)))"
    by blast
  have run: "find_most_constrained_cell b = Inr best'"
    using L(1) by (simp add: find_most_constrained_cell_step)
  have lower: "m' \<le> int (legal_count b i j)" if "i < 9" "j < 9" "b ! i ! j = 0" for i j
    using L(3) that by (auto simp: set_all_cells)
  show ?thesis
  proof (cases "\<forall>i<9. \<forall>j<9. b ! i ! j \<noteq> 0")
    case True
    have "\<not> m' < 10"
    proof
      assume "m' < 10"
      with L(5) obtain pre r c post where "all_cells = pre @ (r, c) # post" "b ! r ! c = 0"
        by blast
      then have "(r, c) \<in> set all_cells" "b ! r ! c = 0"
        by (simp_all add: in_set_conv_decomp) blast
      with True show False by (simp add: set_all_cells)
    qed
    with L(2,4) have "best' = None" by simp
    with run True show ?thesis by simp
  next
    case False
    then obtain i0 j0 where e: "i0 < 9" "j0 < 9" "b ! i0 ! j0 = 0" by blast
    have "m' \<le> int (legal_count b i0 j0)" using lower e by simp
    also have "\<dots> \<le> 9" using legal_count_le[of b i0 j0] by simp
    finally have "m' < 10" by simp
    with L(5) obtain pre r c post where d: "all_cells = pre @ (r, c) # post"
      "best' = Some (r, c)" "b ! r ! c = 0" "int (legal_count b r c) = m'"
      "\<forall>(i, j) \<in> set pre. b ! i ! j = 0 \<longrightarrow> m' < int (legal_count b i j)"
      by blast
    from d(1) have "(r, c) \<in> set all_cells"
      by (simp add: in_set_conv_decomp) blast
    then have rc: "r < 9" "c < 9" by (simp_all add: set_all_cells)
    have best: "legal_count b r c \<le> legal_count b i j \<and>
        (legal_count b i j = legal_count b r c \<longrightarrow> row_major_le (r, c) (i, j))"
      if ij: "i < 9" "j < 9" "b ! i ! j = 0" for i j
    proof
      show "legal_count b r c \<le> legal_count b i j"
        using lower[OF ij] d(4) by simp
      show "legal_count b i j = legal_count b r c \<longrightarrow> row_major_le (r, c) (i, j)"
      proof
        assume eq: "legal_count b i j = legal_count b r c"
        have "(i, j) \<in> set all_cells" using ij by (simp add: set_all_cells)
        then have "(i, j) \<in> set (pre @ (r, c) # post)" by (simp only: d(1))
        then consider "(i, j) \<in> set pre" | "(i, j) = (r, c)" | "(i, j) \<in> set post"
          by auto
        then show "row_major_le (r, c) (i, j)"
        proof cases
          case 1
          with d(5) ij(3) have "m' < int (legal_count b i j)" by auto
          with eq d(4) show ?thesis by simp
        next
          case 2
          then show ?thesis by (simp add: row_major_le_def)
        next
          case 3
          with d(1) show ?thesis by (rule all_cells_order)
        qed
      qed
    qed
    from run d(2,3) rc best False show ?thesis by auto
  qed
qed


text \<open>
  Claim C6.  On a 9x9 grid \<open>find_most_constrained_cell\<close> raises nothing.  It returns
  \<open>None\<close> exactly when no cell holds 0.  Otherwise it returns an empty cell whose number of
  digits from 1 to 9 that pass \<open>is_valid\<close> is the least among the empty cells, and every
  other empty cell with that same number comes later in row-major order.
\<close>

theorem find_most_constrained_cell_spec:
  assumes "wf_grid b"
  shows "\<exists>res. find_most_constrained_cell b = Inr res \<and>
     (res = None \<longleftrightarrow> (\<forall>i<9. \<forall>j<9. b ! i ! j \<noteq> 0)) \<and>
     (\<forall>r c. res = Some (r, c) \<longrightarrow> r < 9 \<and> c < 9 \<and> b ! r ! c = 0 \<and>
        (\<forall>i<9. \<forall>j<9. b ! i ! j = 0 \<longrightarrow> legal_count b r c \<le> legal_count b i j \<and>
              (legal_count b i j = legal_count b r c \<longrightarrow> row_major_le (r, c) (i, j))))"
  using assms by (rule find_most_constrained_cell_wf)

theorem find_most_constrained_cell_spec_witness:
  "wf_grid puzzle \<and> find_most_constrained_cell puzzle = Inr (Some (4, 4)) \<and>
   legal_count puzzle 4 4 = 1 \<and> legal_count puzzle 6 5 = 1 \<and> legal_count puzzle 0 2 = 3 \<and>
   row_major_le (4, 4) (6, 5)"
proof -
  have v: "find_most_constrained_cell puzzle = Inr (Some (4, 4))"
    by code_simp
  have c: "legal_count puzzle 4 4 = 1" "legal_count puzzle 6 5 = 1" "legal_count puzzle 0 2 = 3"
    by code_simp+
  show ?thesis
    using find_most_constrained_cell_spec [OF wf_puzzle] v c wf_puzzle
    by (simp add: row_major_le_def)
qed

section \<open>Empty cells, consistency and sound possibilities\<close>

text \<open>The number of empty cells of a grid.\<close>
definition zeros :: "grid \<Rightarrow> nat" where
  "zeros b = length (filter (\<lambda>(i, j). b ! i ! j = 0) all_cells)"

text \<open>\<open>b'\<close> keeps every digit that \<open>b\<close> has.\<close>
definition extends :: "grid \<Rightarrow> grid \<Rightarrow> bool" where
  "extends b b' \<longleftrightarrow> (\<forall>i<9. \<forall>j<9. b ! i ! j \<noteq> 0 \<longrightarrow> b' ! i ! j = b ! i ! j)"

text \<open>Every entry is 0 or a digit from 1 to 9.\<close>
definition digits_ok :: "grid \<Rightarrow> bool" where
  "digits_ok b \<longleftrightarrow> (\<forall>(i, j) \<in> set all_cells. 0 \<le> b ! i ! j \<and> b ! i ! j \<le> 9)"

text \<open>No two cells of a row, a column or a box hold the same digit.\<close>
definition consistent :: "grid \<Rightarrow> bool" where
  "consistent b \<longleftrightarrow>
     (\<forall>(i, j) \<in> set all_cells. \<forall>(i', j') \<in> set all_cells.
        (i, j) \<noteq> (i', j') \<and> peers (i, j) (i', j') \<and> b ! i ! j \<noteq> 0 \<longrightarrow> b ! i ! j \<noteq> b ! i' ! j')"

text \<open>Every possibility recorded for an empty cell is a digit that the grid allows there.\<close>
definition poss_sound :: "grid \<Rightarrow> possibilities \<Rightarrow> bool" where
  "poss_sound b p \<longleftrightarrow>
     (\<forall>i<9. \<forall>j<9. b ! i ! j = 0 \<longrightarrow> (\<forall>d \<in> p ! i ! j. 1 \<le> d \<and> d \<le> 9 \<and> free_for b i j d))"

lemma digits_ok_iff: "digits_ok b \<longleftrightarrow> (\<forall>i<9. \<forall>j<9. 0 \<le> b ! i ! j \<and> b ! i ! j \<le> 9)"
  by (auto simp: digits_ok_def set_all_cells)

lemma consistent_iff:
  "consistent b \<longleftrightarrow>
     (\<forall>i<9. \<forall>j<9. \<forall>i'<9. \<forall>j'<9.
        (i, j) \<noteq> (i', j') \<and> peers (i, j) (i', j') \<and> b ! i ! j \<noteq> 0 \<longrightarrow> b ! i ! j \<noteq> b ! i' ! j')"
proof
  assume c: "consistent b"
  show "\<forall>i<9. \<forall>j<9. \<forall>i'<9. \<forall>j'<9.
        (i, j) \<noteq> (i', j') \<and> peers (i, j) (i', j') \<and> b ! i ! j \<noteq> 0 \<longrightarrow> b ! i ! j \<noteq> b ! i' ! j'"
  proof (intro allI impI)
    fix i j i' j' :: nat
    assume r: "i < 9" "j < 9" "i' < 9" "j' < 9"
      and h: "(i, j) \<noteq> (i', j') \<and> peers (i, j) (i', j') \<and> b ! i ! j \<noteq> 0"
    from r have "(i, j) \<in> set all_cells" "(i', j') \<in> set all_cells"
      by (simp_all add: set_all_cells)
    with c h show "b ! i ! j \<noteq> b ! i' ! j'"
      unfolding consistent_def by fast
  qed
next
  assume c: "\<forall>i<9. \<forall>j<9. \<forall>i'<9. \<forall>j'<9.
        (i, j) \<noteq> (i', j') \<and> peers (i, j) (i', j') \<and> b ! i ! j \<noteq> 0 \<longrightarrow> b ! i ! j \<noteq> b ! i' ! j'"
  show "consistent b"
    unfolding consistent_def
  proof (clarify, goal_cases)
    case (1 i j i' j')
    from 1(1,2) have r: "i < 9" "j < 9" "i' < 9" "j' < 9" by (simp_all add: set_all_cells)
    from c r 1(3-) show ?case by blast
  qed
qed

lemma distinct_all_cells: "distinct all_cells"
proof -
  have "distinct (map (\<lambda>(i, j). 9 * i + j) all_cells)"
    by (simp add: all_cells_index)
  then show ?thesis by (simp add: distinct_map)
qed

lemma zeros_card: "zeros b = card {(i, j). i < 9 \<and> j < 9 \<and> b ! i ! j = 0}"
proof -
  have "zeros b = card ({x. (case x of (i, j) \<Rightarrow> b ! i ! j = 0)} \<inter> set all_cells)"
    unfolding zeros_def using distinct_all_cells by (rule distinct_length_filter)
  also have "{x. (case x of (i, j) \<Rightarrow> b ! i ! j = 0)} \<inter> set all_cells =
      {(i, j). i < 9 \<and> j < 9 \<and> b ! i ! j = 0}"
    by (auto simp: set_all_cells)
  finally show ?thesis .
qed

lemma finite_cells: "finite {(i, j). i < (9::nat) \<and> j < (9::nat) \<and> P i j}"
  by (rule finite_subset[of _ "{..<9} \<times> {..<9}"]) auto

lemma zeros_le: "zeros b \<le> 81"
proof -
  have "zeros b \<le> length all_cells" unfolding zeros_def by (rule length_filter_le)
  also have "length all_cells = length (map (\<lambda>(i, j). 9 * i + j) all_cells)" by simp
  also have "\<dots> = 81" by (simp only: all_cells_index) simp
  finally show ?thesis .
qed

lemma zeros_place:
  assumes "wf_grid b" and "i < 9" and "j < 9" and "b ! i ! j = 0" and "v \<noteq> 0"
  shows "zeros (b[i := (b ! i)[j := v]]) < zeros b"
proof -
  let ?b' = "b[i := (b ! i)[j := v]]"
  have new: "?b' ! x ! y = (if x = i \<and> y = j then v else b ! x ! y)" if "x < 9" "y < 9" for x y
    using assms(1,2,3) that by (simp add: nth_grid_update)
  have "{(a, c). a < 9 \<and> c < 9 \<and> ?b' ! a ! c = 0} \<subseteq> {(a, c). a < 9 \<and> c < 9 \<and> b ! a ! c = 0}"
    using assms(5) by (auto simp: new split: if_splits)
  moreover have "(i, j) \<in> {(a, c). a < 9 \<and> c < 9 \<and> b ! a ! c = 0}"
    using assms by simp
  moreover have "(i, j) \<notin> {(a, c). a < 9 \<and> c < 9 \<and> ?b' ! a ! c = 0}"
    using assms by (simp add: new)
  ultimately have "{(a, c). a < 9 \<and> c < 9 \<and> ?b' ! a ! c = 0} \<subset> {(a, c). a < 9 \<and> c < 9 \<and> b ! a ! c = 0}"
    by blast
  then show ?thesis
    unfolding zeros_card by (intro psubset_card_mono finite_cells)
qed

lemma zeros_0_iff: "zeros b = 0 \<longleftrightarrow> (\<forall>i<9. \<forall>j<9. b ! i ! j \<noteq> 0)"
  unfolding zeros_card using finite_cells[of "\<lambda>i j. b ! i ! j = 0"] by auto

lemma free_for_nonzero:
  assumes "free_for b i j d" and "i < 9" and "j < 9" and "b ! i ! j = 0"
  shows "d \<noteq> 0"
  using assms peers_refl[of "(i, j)"] by (auto simp: free_for_def)

lemma consistent_place:
  assumes "wf_grid b" and "consistent b" and "i < 9" and "j < 9" and "b ! i ! j = 0"
    and "free_for b i j d"
  shows "consistent (b[i := (b ! i)[j := d]])"
  unfolding consistent_iff
proof (intro allI impI)
  fix a c a' c'
  let ?b' = "b[i := (b ! i)[j := d]]"
  assume r: "a < 9" "c < 9" "a' < 9" "c' < 9"
    and h: "(a, c) \<noteq> (a', c') \<and> peers (a, c) (a', c') \<and> ?b' ! a ! c \<noteq> 0"
  have new: "?b' ! x ! y = (if x = i \<and> y = j then d else b ! x ! y)" if "x < 9" "y < 9" for x y
    using assms(1,3,4) that by (simp add: nth_grid_update)
  show "?b' ! a ! c \<noteq> ?b' ! a' ! c'"
  proof (cases "(a, c) = (i, j)")
    case True
    with h have "(a', c') \<noteq> (i, j)" "peers (a', c') (i, j)" by (auto dest: peers_sym)
    with assms(6) r have "b ! a' ! c' \<noteq> d" by (auto simp: free_for_def)
    with True r \<open>(a', c') \<noteq> (i, j)\<close> show ?thesis by (auto simp: new)
  next
    case False
    with h r have nz: "b ! a ! c \<noteq> 0" by (auto simp: new)
    show ?thesis
    proof (cases "(a', c') = (i, j)")
      case True
      with h have "peers (a, c) (i, j)" by simp
      with assms(6) r have "b ! a ! c \<noteq> d" by (auto simp: free_for_def)
      with True False r show ?thesis by (auto simp: new)
    next
      case F2: False
      from assms(2) r h nz have "b ! a ! c \<noteq> b ! a' ! c'"
        unfolding consistent_iff by blast
      with False F2 r show ?thesis by (auto simp: new)
    qed
  qed
qed

lemma digits_ok_place:
  assumes "wf_grid b" and "digits_ok b" and "i < 9" and "j < 9" and "0 \<le> d" and "d \<le> 9"
  shows "digits_ok (b[i := (b ! i)[j := d]])"
  using assms by (auto simp: digits_ok_iff nth_grid_update)

lemma extends_refl: "extends b b"
  by (simp add: extends_def)

lemma extends_trans: "extends a b \<Longrightarrow> extends b c \<Longrightarrow> extends a c"
  by (auto simp: extends_def)

lemma extends_place:
  assumes "wf_grid b" and "i < 9" and "j < 9" and "b ! i ! j = 0"
  shows "extends b (b[i := (b ! i)[j := d]])"
  using assms by (auto simp: extends_def nth_grid_update)

lemma poss_sound_place:
  assumes "wf_grid b" and "wf_grid p" and "poss_sound b p" and "i < 9" and "j < 9" and "d \<noteq> 0"
    and p': "\<forall>a<9. \<forall>c<9. p' ! a ! c =
              (if (a, c) = (i, j) then {}
               else if peers (a, c) (i, j) then p ! a ! c - {d} else p ! a ! c)"
  shows "poss_sound (b[i := (b ! i)[j := d]]) p'"
  unfolding poss_sound_def
proof (intro allI impI ballI)
  fix a c e
  let ?b' = "b[i := (b ! i)[j := d]]"
  assume r: "a < 9" "c < 9" and z: "?b' ! a ! c = 0" and e: "e \<in> p' ! a ! c"
  have new: "?b' ! x ! y = (if x = i \<and> y = j then d else b ! x ! y)" if "x < 9" "y < 9" for x y
    using assms(1,4,5) that by (simp add: nth_grid_update)
  from z r assms(6) have ne: "(a, c) \<noteq> (i, j)" and bz: "b ! a ! c = 0"
    by (auto simp: new split: if_splits)
  from e p' r ne have ep: "e \<in> p ! a ! c" and pe: "peers (a, c) (i, j) \<longrightarrow> e \<noteq> d"
    by (auto split: if_splits)
  from assms(3) r bz ep have old: "1 \<le> e" "e \<le> 9" "free_for b a c e"
    by (auto simp: poss_sound_def)
  have "free_for ?b' a c e"
    unfolding free_for_def
  proof (intro allI impI)
    fix x y assume xy: "x < 9" "y < 9" "peers (x, y) (a, c)"
    show "?b' ! x ! y \<noteq> e"
    proof (cases "(x, y) = (i, j)")
      case True
      with xy(3) have "peers (a, c) (i, j)" by (auto dest: peers_sym)
      with pe True xy show ?thesis by (auto simp: new)
    next
      case False
      with old(3) xy show ?thesis by (auto simp: new free_for_def)
    qed
  qed
  with old show "1 \<le> e \<and> e \<le> 9 \<and> free_for ?b' a c e" by simp
qed

section \<open>One pass of the propagation loop\<close>

text \<open>A grid a solver may be given: entries from 0 to 9 and no digit twice in a group.\<close>
definition legal_grid :: "grid \<Rightarrow> bool" where
  "legal_grid b \<longleftrightarrow> digits_ok b \<and> consistent b"

definition good :: "pass_state \<Rightarrow> bool" where
  "good = (\<lambda>(s, p, progress). wf_grid (board s) \<and> wf_grid p \<and> poss_sound (board s) p)"

text \<open>
  What a part of a pass does to its state: nothing at all, or it has placed digits in empty
  cells and set \<open>progress\<close>.
\<close>
definition moved :: "pass_state \<Rightarrow> pass_state \<Rightarrow> bool" where
  "moved = (\<lambda>(s, p, progress) (s', p', progress').
     (s' = s \<and> p' = p \<and> progress' = progress) \<or>
     (good (s', p', progress') \<and> progress' \<and> zeros (board s') < zeros (board s) \<and>
      extends (board s) (board s') \<and> backtracks s' = backtracks s \<and>
      (legal_grid (board s) \<longrightarrow> legal_grid (board s'))))"

lemma moved_refl: "moved st st"
  by (cases st) (simp add: moved_def)

lemma moved_trans: "moved a b \<Longrightarrow> moved b c \<Longrightarrow> moved a c"
  by (cases a, cases b, cases c) (auto simp: moved_def intro: extends_trans)

lemma moved_good: "good st \<Longrightarrow> moved st st' \<Longrightarrow> good st'"
  by (cases st, cases st') (auto simp: moved_def good_def)

lemma forE_moved:
  assumes "good st"
    and "\<And>x st. x \<in> set xs \<Longrightarrow> good st \<Longrightarrow> \<exists>st'. f x st = Inr st' \<and> moved st st'"
  shows "\<exists>st'. forE xs f st = Inr st' \<and> moved st st'"
proof -
  have "\<exists>st'. forE xs f st = Inr st' \<and> (good st' \<and> moved st st')"
  proof (rule forE_inv)
    show "good st \<and> moved st st" using assms(1) by (simp add: moved_refl)
  next
    fix x t assume "x \<in> set xs" "good t \<and> moved st t"
    with assms(2)[of x t] obtain t' where "f x t = Inr t'" "moved t t'" by blast
    with \<open>good t \<and> moved st t\<close> show "\<exists>s'. f x t = Inr s' \<and> (good s' \<and> moved st s')"
      by (blast intro: moved_trans moved_good)
  qed
  then show ?thesis by blast
qed

lemma place_moved:
  assumes "good (s, p, progress)" and "i < 9" and "j < 9" and "board s ! i ! j = 0"
    and "d \<in> p ! i ! j"
  shows "\<exists>st'. place i j d (s, p, progress) = Inr st' \<and> moved (s, p, progress) st'"
proof -
  let ?b = "board s"
  let ?b' = "?b[i := (?b ! i)[j := d]]"
  from assms(1) have wf: "wf_grid ?b" "wf_grid p" and snd: "poss_sound ?b p"
    by (simp_all add: good_def)
  from snd assms(2-5) have d: "1 \<le> d" "d \<le> 9" "free_for ?b i j d"
    by (auto simp: poss_sound_def)
  then have dz: "d \<noteq> 0" by simp
  from update_possibilities_wf[OF wf(2) assms(2,3), of d] obtain p' where p':
    "update_possibilities p i j d = Inr p'" "wf_grid p'"
    "\<forall>a<9. \<forall>c<9. p' ! a ! c =
       (if (a, c) = (i, j) then {}
        else if peers (a, c) (i, j) then p ! a ! c - {d} else p ! a ! c)"
    by blast
  let ?s' = "s\<lparr>board := ?b', steps := steps s + 1\<rparr>"
  have run: "place i j d (s, p, progress) = Inr (?s', p', True)"
    using wf(1) assms(2,3) p'(1) by (simp add: place_def)
  have "good (?s', p', True)"
    using wf p'(2) poss_sound_place[OF wf snd assms(2,3) dz p'(3)] by (simp add: good_def)
  moreover have "zeros ?b' < zeros ?b"
    using wf(1) assms(2,3,4) dz by (rule zeros_place)
  moreover have "extends ?b ?b'"
    using wf(1) assms(2,3,4) by (rule extends_place)
  moreover have "legal_grid ?b \<longrightarrow> legal_grid ?b'"
    using wf(1) assms(2,3,4) d
    by (auto simp: legal_grid_def intro: consistent_place digits_ok_place)
  ultimately have "moved (s, p, progress) (?s', p', True)"
    by (simp add: moved_def)
  with run show ?thesis by blast
qed

lemma naked_single_moved:
  assumes "good st" and "x \<in> set all_cells"
  shows "\<exists>st'. naked_single x st = Inr st' \<and> moved st st'"
proof -
  obtain s p progress where st: "st = (s, p, progress)" by (cases st)
  obtain i j where x: "x = (i, j)" by (cases x)
  with assms(2) have ij: "i < 9" "j < 9" by (simp_all add: set_all_cells)
  from assms(1) st have wf: "wf_grid (board s)" "wf_grid p" by (simp_all add: good_def)
  show ?thesis
  proof (cases "board s ! i ! j = 0 \<and> card (p ! i ! j) = 1")
    case True
    then have "card (p ! i ! j) = 1" by simp
    then obtain d where "p ! i ! j = {d}" by (rule card_1_singletonE)
    then have d: "the_elem (p ! i ! j) = d" "d \<in> p ! i ! j" by simp_all
    from place_moved[OF assms(1)[unfolded st] ij _ d(2)] True
    obtain st' where "place i j d (s, p, progress) = Inr st'" "moved (s, p, progress) st'"
      by blast
    with True d(1) wf ij show ?thesis
      by (simp add: naked_single_def st x)
  next
    case False
    with wf ij have "naked_single x st = Inr st"
      by (auto simp: naked_single_def st x)
    then show ?thesis by (simp add: moved_refl)
  qed
qed

lemma candidates_wf:
  assumes "wf_grid b" and "wf_grid p" and "in_range cs"
  shows "candidates b p num cs = Inr (filter (\<lambda>(i, j). b ! i ! j = 0 \<and> num \<in> p ! i ! j) cs)"
  using assms(3)
proof (induction cs)
  case Nil
  then show ?case by simp
next
  case (Cons x cs)
  obtain i j where x: "x = (i, j)" by (cases x)
  with Cons.prems have ij: "i < 9" "j < 9" and cs: "in_range cs"
    by (auto simp: in_range_def)
  with Cons.IH assms(1,2) x show ?case by simp
qed

lemma hidden_single_moved:
  assumes "good st" and "in_range cells"
  shows "\<exists>st'. hidden_single cells num st = Inr st' \<and> moved st st'"
proof -
  obtain s p progress where st: "st = (s, p, progress)" by (cases st)
  from assms(1) st have wf: "wf_grid (board s)" "wf_grid p" by (simp_all add: good_def)
  let ?cands = "filter (\<lambda>(i, j). board s ! i ! j = 0 \<and> num \<in> p ! i ! j) cells"
  have c: "candidates (board s) p num cells = Inr ?cands"
    using wf assms(2) by (rule candidates_wf)
  show ?thesis
  proof (cases "length ?cands = 1")
    case True
    then have "?cands ! 0 \<in> set ?cands" by (intro nth_mem) simp
    moreover obtain i j where ij: "?cands ! 0 = (i, j)" by (cases "?cands ! 0")
    ultimately have m: "(i, j) \<in> set cells" "board s ! i ! j = 0" "num \<in> p ! i ! j"
      by auto
    from m(1) assms(2) have r: "i < 9" "j < 9" by (auto simp: in_range_def)
    from place_moved[OF assms(1)[unfolded st] r m(2,3)]
    obtain st' where "place i j num (s, p, progress) = Inr st'" "moved (s, p, progress) st'"
      by blast
    with True c ij show ?thesis by (simp add: hidden_single_def st)
  next
    case False
    with c have "hidden_single cells num st = Inr st"
      by (simp add: hidden_single_def st)
    then show ?thesis by (simp add: moved_refl)
  qed
qed

lemma in_range_box_group: "k < 9 \<Longrightarrow> in_range (box_group k)"
proof -
  assume "k < 9"
  then have "k div 3 < 3" by (intro less_mult_imp_div_less) simp
  moreover have "k mod 3 < 3" by simp
  ultimately have "3 * (k div 3) + 3 \<le> 9" "3 * (k mod 3) + 3 \<le> 9" by simp_all
  then show ?thesis unfolding box_group_def Let_def by (rule in_range_block)
qed

lemma hidden_phase_moved:
  assumes "good st" and "\<And>k. k < 9 \<Longrightarrow> in_range (g k)"
  shows "\<exists>st'. forE [0..<9] (\<lambda>k. forE digits (hidden_single (g k))) st = Inr st' \<and> moved st st'"
  using assms(1)
proof (rule forE_moved)
  fix k t assume "k \<in> set [0..<9]" and t: "good t"
  then have "in_range (g k)" using assms(2) by simp
  with t show "\<exists>st'. forE digits (hidden_single (g k)) t = Inr st' \<and> moved t st'"
    by (intro forE_moved hidden_single_moved)
qed

lemma greedy_pass_moved:
  assumes "good (s, p, False)"
  shows "\<exists>st'. greedy_pass (s, p) = Inr st' \<and> moved (s, p, False) st'"
proof -
  from forE_moved[OF assms, of all_cells naked_single] obtain st1 where 1:
    "forE all_cells naked_single (s, p, False) = Inr st1" "moved (s, p, False) st1"
    using naked_single_moved by blast
  then have g1: "good st1" using assms by (blast intro: moved_good)
  from hidden_phase_moved[OF g1, of row_cells] obtain st2 where 2:
    "forE [0..<9] (\<lambda>i. forE digits (hidden_single (row_cells i))) st1 = Inr st2" "moved st1 st2"
    using in_range_row by blast
  then have g2: "good st2" using g1 by (blast intro: moved_good)
  from hidden_phase_moved[OF g2, of col_cells] obtain st3 where 3:
    "forE [0..<9] (\<lambda>j. forE digits (hidden_single (col_cells j))) st2 = Inr st3" "moved st2 st3"
    using in_range_col by blast
  then have g3: "good st3" using g2 by (blast intro: moved_good)
  from hidden_phase_moved[OF g3, of box_group] obtain st4 where 4:
    "forE [0..<9] (\<lambda>box. forE digits (hidden_single (box_group box))) st3 = Inr st4"
    "moved st3 st4"
    using in_range_box_group by blast
  have "greedy_pass (s, p) = Inr st4"
    using 1(1) 2(1) 3(1) 4(1) by (simp add: greedy_pass_def)
  moreover have "moved (s, p, False) st4"
    using 1(2) 2(2) 3(2) 4(2) by (blast intro: moved_trans)
  ultimately show ?thesis by blast
qed

section \<open>The propagation loop ends\<close>

lemma set_digits: "set digits = {1..9}"
  by (simp add: digits_def)

lemma initialize_possibilities_wf:
  assumes "wf_grid b"
  shows "\<exists>p. initialize_possibilities b = Inr p \<and> wf_grid p \<and> poss_sound b p"
proof -
  let ?I = "\<lambda>p. wf_grid p \<and> (\<forall>i<9. \<forall>j<9. \<forall>d \<in> p ! i ! j. 1 \<le> d \<and> d \<le> 9 \<and> free_for b i j d)"
  let ?inner = "\<lambda>i j. (\<lambda>num p. bindE (is_valid b i j num) (\<lambda>ok.
               if ok then modify_cell p i j (insert num) else Inr p))"
  let ?outer = "\<lambda>(i, j) p. bindE (get_cell b i j) (\<lambda>v.
         if v = 0 then forE digits (?inner i j) p else Inr p)"
  have inner: "\<exists>p'. ?inner i j num p = Inr p' \<and> ?I p'"
    if "i < 9" "j < 9" "num \<in> set digits" "?I p" for i j num p
  proof (cases "free_for b i j num")
    case True
    let ?p' = "p[i := (p ! i)[j := insert num (p ! i ! j)]]"
    from that True have "?I ?p'"
      by (auto simp: nth_grid_update set_digits)
    with that True assms show ?thesis by (simp add: is_valid_wf)
  next
    case False
    with that assms show ?thesis by (simp add: is_valid_wf)
  qed
  have outer: "\<exists>p'. ?outer x p = Inr p' \<and> ?I p'" if "x \<in> set all_cells" "?I p" for x p
  proof -
    obtain i j where x: "x = (i, j)" by (cases x)
    with that(1) have ij: "i < 9" "j < 9" by (simp_all add: set_all_cells)
    show ?thesis
    proof (cases "b ! i ! j = 0")
      case True
      have "\<exists>p'. forE digits (?inner i j) p = Inr p' \<and> ?I p'"
        using that(2) inner[OF ij] by (intro forE_inv) blast+
      with True ij assms x show ?thesis by simp
    next
      case False
      with ij assms x that(2) show ?thesis by simp
    qed
  qed
  have "?I (replicate 9 (replicate 9 {}))"
    by (simp add: wf_grid_def)
  then have "\<exists>p. forE all_cells ?outer (replicate 9 (replicate 9 {})) = Inr p \<and> ?I p"
    using outer by (intro forE_inv) blast+
  then show ?thesis
    unfolding initialize_possibilities_def poss_sound_def by blast
qed

lemma greedy_loop_terminates:
  assumes "good (s, p, False)"
  shows "\<exists>s' p'. greedy_loop (s, p) = Some (Inr (s', p')) \<and> good (s', p', False) \<and>
           greedy_pass (s', p') = Inr (s', p', False) \<and>
           extends (board s) (board s') \<and> zeros (board s') \<le> zeros (board s) \<and>
           backtracks s' = backtracks s \<and>
           (legal_grid (board s) \<longrightarrow> legal_grid (board s')) \<and>
           (zeros (board s) = 0 \<longrightarrow> s' = s)"
  using assms
proof (induction "zeros (board s)" arbitrary: s p rule: less_induct)
  case less
  from greedy_pass_moved[OF less.prems] obtain s1 p1 pr1 where pass:
    "greedy_pass (s, p) = Inr (s1, p1, pr1)" "moved (s, p, False) (s1, p1, pr1)"
    by (metis prod_cases3)
  show ?case
  proof (cases pr1)
    case False
    with pass(2) have same: "s1 = s" "p1 = p" by (auto simp: moved_def)
    with pass(1) False have "greedy_loop (s, p) = Some (Inr (s, p))"
      by (subst greedy_loop.simps) simp
    with pass(1) same False less.prems show ?thesis
      by (simp add: extends_refl)
  next
    case True
    with pass(2) have m: "good (s1, p1, True)" "zeros (board s1) < zeros (board s)"
      "extends (board s) (board s1)" "backtracks s1 = backtracks s"
      "legal_grid (board s) \<longrightarrow> legal_grid (board s1)"
      by (auto simp: moved_def)
    from m(1) have g1: "good (s1, p1, False)" by (simp add: good_def)
    from less.hyps[OF m(2) g1] obtain s' p' where r:
      "greedy_loop (s1, p1) = Some (Inr (s', p'))" "good (s', p', False)"
      "greedy_pass (s', p') = Inr (s', p', False)"
      "extends (board s1) (board s')" "zeros (board s') \<le> zeros (board s1)"
      "backtracks s' = backtracks s1"
      "legal_grid (board s1) \<longrightarrow> legal_grid (board s')"
      by blast
    have "greedy_loop (s, p) = Some (Inr (s', p'))"
      using pass(1) True r(1) by (subst greedy_loop.simps) simp
    with r m show ?thesis
      by (auto intro: extends_trans)
  qed
qed

lemma found_zero: "wf_grid b \<Longrightarrow> found_in b 0 all_cells = Inr (zeros b \<noteq> 0)"
  by (auto simp: found_in_wf in_range_all zeros_0_iff set_all_cells)

lemma solve_greedy_wf:
  assumes "wf_grid (board s)"
  shows "\<exists>s' p'. solve_greedy s = Some (Inr (zeros (board s') = 0, s')) \<and>
           wf_grid (board s') \<and> greedy_pass (s', p') = Inr (s', p', False) \<and>
           extends (board s) (board s') \<and> zeros (board s') \<le> zeros (board s) \<and>
           backtracks s' = backtracks s \<and>
           (legal_grid (board s) \<longrightarrow> legal_grid (board s')) \<and>
           (zeros (board s) = 0 \<longrightarrow> s' = s)"
proof -
  from initialize_possibilities_wf[OF assms] obtain p where p:
    "initialize_possibilities (board s) = Inr p" "wf_grid p" "poss_sound (board s) p"
    by blast
  with assms have "good (s, p, False)" by (simp add: good_def)
  from greedy_loop_terminates[OF this] obtain s' p' where r:
    "greedy_loop (s, p) = Some (Inr (s', p'))" "good (s', p', False)"
    "greedy_pass (s', p') = Inr (s', p', False)"
    "extends (board s) (board s')" "zeros (board s') \<le> zeros (board s)"
    "backtracks s' = backtracks s"
    "legal_grid (board s) \<longrightarrow> legal_grid (board s')" "zeros (board s) = 0 \<longrightarrow> s' = s"
    by (elim exE conjE)
  from r(2) have wf': "wf_grid (board s')" by (simp add: good_def)
  have "solve_greedy s = Some (Inr (zeros (board s') = 0, s'))"
    using p(1) r(1) wf' by (simp add: solve_greedy_def found_zero)
  with wf' r show ?thesis
    by - (rule exI[of _ s'], rule exI[of _ p'], simp)
qed

section \<open>Propagation: results\<close>

definition solution :: grid where
  "solution =
    [[5, 3, 4, 6, 7, 8, 9, 1, 2],
     [6, 7, 2, 1, 9, 5, 3, 4, 8],
     [1, 9, 8, 3, 4, 2, 5, 6, 7],
     [8, 5, 9, 7, 6, 1, 4, 2, 3],
     [4, 2, 6, 8, 5, 3, 7, 9, 1],
     [7, 1, 3, 9, 2, 4, 8, 5, 6],
     [9, 6, 1, 5, 3, 7, 2, 8, 4],
     [2, 8, 7, 4, 1, 9, 6, 3, 5],
     [3, 4, 5, 2, 8, 6, 1, 7, 9]]"

lemma wf_solution: "wf_grid solution"
  by (simp add: wf_grid_def solution_def)

lemma board_init [simp]: "board (init b) = b"
  by (simp add: init_def)

text \<open>
  The loop cut off after \<open>n\<close> passes.  It is used to evaluate \<open>greedy_loop\<close> on a given
  grid: where the bounded loop returns, the loop returns the same.
\<close>

fun greedy_loop_upto ::
  "nat \<Rightarrow> solverSudoku \<times> possibilities \<Rightarrow> (error + solverSudoku \<times> possibilities) option" where
  "greedy_loop_upto 0 sp = None"
| "greedy_loop_upto (Suc n) sp =
     (case greedy_pass sp of
        Inl e \<Rightarrow> Some (Inl e)
      | Inr (s', p', progress) \<Rightarrow>
          if progress then greedy_loop_upto n (s', p') else Some (Inr (s', p')))"

definition solve_greedy_upto :: "nat \<Rightarrow> solverSudoku \<Rightarrow> (error + bool \<times> solverSudoku) option" where
  "solve_greedy_upto n s =
     (case initialize_possibilities (board s) of
        Inl e \<Rightarrow> Some (Inl e)
      | Inr p \<Rightarrow>
          (case greedy_loop_upto n (s, p) of
             None \<Rightarrow> None
           | Some (Inl e) \<Rightarrow> Some (Inl e)
           | Some (Inr (s', p')) \<Rightarrow>
               Some (bindE (found_in (board s') 0 all_cells) (\<lambda>has_empty.
                 Inr (\<not> has_empty, s')))))"

lemma greedy_loop_upto: "greedy_loop_upto n sp = Some r \<Longrightarrow> greedy_loop sp = Some r"
proof (induction n arbitrary: sp)
  case 0
  then show ?case by simp
next
  case (Suc n)
  show ?case
  proof (cases "greedy_pass sp")
    case (Inl e)
    with Suc.prems show ?thesis by (subst greedy_loop.simps) simp
  next
    case (Inr t)
    obtain s' p' progress where t: "t = (s', p', progress)" by (cases t)
    show ?thesis
    proof (cases progress)
      case True
      with Suc.prems Inr t have "greedy_loop_upto n (s', p') = Some r" by simp
      then have "greedy_loop (s', p') = Some r" by (rule Suc.IH)
      with Inr t True show ?thesis by (subst greedy_loop.simps) simp
    next
      case False
      with Suc.prems Inr t show ?thesis by (subst greedy_loop.simps) simp
    qed
  qed
qed

lemma solve_greedy_upto: "solve_greedy_upto n s = Some r \<Longrightarrow> solve_greedy s = Some r"
  unfolding solve_greedy_upto_def solve_greedy_def
  by (auto split: sum.splits option.splits dest: greedy_loop_upto)

lemma solve_combined_after:
  "solve_greedy s = Some (Inr (complete, s')) \<Longrightarrow>
   solve_combined depth s =
     (if complete then Some (Inr (True, s')) else Some (solve_smart_backtracking depth s'))"
  by (simp add: solve_combined_def)

text \<open>
  The loop needs at most one pass more than the grid has empty cells: every pass but the
  last one places a digit.
\<close>

lemma greedy_loop_upto_mono:
  "greedy_loop_upto n sp = Some r \<Longrightarrow> n \<le> m \<Longrightarrow> greedy_loop_upto m sp = Some r"
proof (induction n arbitrary: m sp)
  case 0
  then show ?case by simp
next
  case (Suc n)
  from Suc.prems(2) obtain m' where m: "m = Suc m'" "n \<le> m'" by (cases m) auto
  show ?case
  proof (cases "greedy_pass sp")
    case (Inl e)
    with Suc.prems(1) m show ?thesis by simp
  next
    case (Inr t)
    obtain s' p' progress where t: "t = (s', p', progress)" by (cases t)
    show ?thesis
    proof (cases progress)
      case True
      with Suc.prems(1) Inr t have "greedy_loop_upto n (s', p') = Some r" by simp
      then have "greedy_loop_upto m' (s', p') = Some r" using m(2) by (rule Suc.IH)
      with Inr t True m show ?thesis by simp
    next
      case False
      with Suc.prems(1) Inr t m show ?thesis by simp
    qed
  qed
qed

lemma greedy_loop_upto_bound:
  assumes "good (s, p, False)"
  shows "\<exists>r. greedy_loop_upto (Suc (zeros (board s))) (s, p) = Some (Inr r)"
  using assms
proof (induction "zeros (board s)" arbitrary: s p rule: less_induct)
  case less
  from greedy_pass_moved[OF less.prems] obtain s1 p1 pr1 where pass:
    "greedy_pass (s, p) = Inr (s1, p1, pr1)" "moved (s, p, False) (s1, p1, pr1)"
    by (metis prod_cases3)
  show ?case
  proof (cases pr1)
    case False
    with pass(1) show ?thesis by simp
  next
    case True
    with pass(2) have m: "good (s1, p1, True)" "zeros (board s1) < zeros (board s)"
      by (auto simp: moved_def)
    from m(1) have g1: "good (s1, p1, False)" by (simp add: good_def)
    from less.hyps[OF m(2) g1] obtain r where
      "greedy_loop_upto (Suc (zeros (board s1))) (s1, p1) = Some (Inr r)" by blast
    moreover from m(2) have "Suc (zeros (board s1)) \<le> zeros (board s)" by simp
    ultimately have "greedy_loop_upto (zeros (board s)) (s1, p1) = Some (Inr r)"
      by (rule greedy_loop_upto_mono)
    with pass(1) True show ?thesis by simp
  qed
qed

lemma solve_greedy_run:
  assumes "wf_grid (board s)"
  shows "\<exists>p s' p'. initialize_possibilities (board s) = Inr p \<and>
           greedy_loop (s, p) = Some (Inr (s', p')) \<and>
           greedy_loop_upto (Suc (zeros (board s))) (s, p) = Some (Inr (s', p')) \<and>
           greedy_pass (s', p') = Inr (s', p', False) \<and>
           solve_greedy s = Some (Inr (zeros (board s') = 0, s')) \<and>
           wf_grid (board s') \<and> zeros (board s') \<le> zeros (board s)"
proof -
  from initialize_possibilities_wf[OF assms] obtain p where p:
    "initialize_possibilities (board s) = Inr p" "wf_grid p" "poss_sound (board s) p"
    by blast
  with assms have g: "good (s, p, False)" by (simp add: good_def)
  from greedy_loop_terminates[OF g] obtain s' p' where r:
    "greedy_loop (s, p) = Some (Inr (s', p'))" "good (s', p', False)"
    "greedy_pass (s', p') = Inr (s', p', False)" "zeros (board s') \<le> zeros (board s)"
    by (elim exE conjE)
  from greedy_loop_upto_bound[OF g] obtain t where
    t: "greedy_loop_upto (Suc (zeros (board s))) (s, p) = Some (Inr t)" by blast
  then have "greedy_loop (s, p) = Some (Inr t)" by (rule greedy_loop_upto)
  with r(1) have "t = (s', p')" by simp
  with t have u: "greedy_loop_upto (Suc (zeros (board s))) (s, p) = Some (Inr (s', p'))" by simp
  from r(2) have wf': "wf_grid (board s')" by (simp add: good_def)
  have "solve_greedy s = Some (Inr (zeros (board s') = 0, s'))"
    using p(1) r(1) wf' by (simp add: solve_greedy_def found_zero)
  with wf' r p(1) u show ?thesis
    by - (rule exI[of _ p], rule exI[of _ s'], rule exI[of _ p'], simp)
qed

text \<open>
  The puzzle is solved by propagation alone, in three passes and 51 placements.
\<close>

lemma solve_greedy_puzzle:
  "solve_greedy (init puzzle) = Some (Inr (True, \<lparr>board = solution, steps = 51, backtracks = 0\<rparr>))"
proof -
  have "solve_greedy_upto 3 (init puzzle) =
      Some (Inr (True, \<lparr>board = solution, steps = 51, backtracks = 0\<rparr>))"
    by code_simp
  then show ?thesis by (rule solve_greedy_upto)
qed

lemma solve_greedy_state:
  assumes "initialize_possibilities (board s) = Inr p"
    and "greedy_loop (s, p) = Some (Inr (s', p'))"
    and "solve_greedy s = Some (Inr (r, t))"
  shows "s' = t"
  using assms by (auto simp: solve_greedy_def bindE_def split: sum.splits)

lemma zeros_puzzle: "zeros puzzle = 51"
  by code_simp

lemma zeros_solution: "zeros solution = 0"
  by code_simp

text \<open>
  Claim C4.  On a 9x9 grid \<open>solve_greedy\<close> returns, raising nothing.  The loop, started on
  the possibilities \<open>p\<close> that \<open>initialize_possibilities\<close> computes for the grid, ends in a
  state \<open>(s', p')\<close> that is a fixed point: one more pass over this grid and this possibility
  matrix places nothing and reports no progress.  \<open>solve_greedy\<close> returns the solver \<open>s'\<close> of
  that state, and its result is true exactly when no cell of the grid of \<open>s'\<close> holds 0.
\<close>

theorem solve_greedy_result:
  assumes "wf_grid (board s)"
  shows "\<exists>p r s' p'. initialize_possibilities (board s) = Inr p \<and>
           greedy_loop (s, p) = Some (Inr (s', p')) \<and>
           greedy_pass (s', p') = Inr (s', p', False) \<and>
           solve_greedy s = Some (Inr (r, s')) \<and>
           (r \<longleftrightarrow> (\<forall>i<9. \<forall>j<9. board s' ! i ! j \<noteq> 0))"
proof -
  from solve_greedy_run[OF assms] obtain p s' p' where
    "initialize_possibilities (board s) = Inr p"
    "greedy_loop (s, p) = Some (Inr (s', p'))"
    "greedy_pass (s', p') = Inr (s', p', False)"
    "solve_greedy s = Some (Inr (zeros (board s') = 0, s'))"
    by (elim exE conjE)
  then show ?thesis
    by - (rule exI[of _ p], rule exI[of _ "zeros (board s') = 0"], rule exI[of _ s'],
          rule exI[of _ p'], simp add: zeros_0_iff)
qed

theorem solve_greedy_result_witness:
  "\<exists>p p'. initialize_possibilities puzzle = Inr p \<and>
     greedy_loop (init puzzle, p) =
       Some (Inr (\<lparr>board = solution, steps = 51, backtracks = 0\<rparr>, p')) \<and>
     greedy_pass (\<lparr>board = solution, steps = 51, backtracks = 0\<rparr>, p') =
       Inr (\<lparr>board = solution, steps = 51, backtracks = 0\<rparr>, p', False) \<and>
     solve_greedy (init puzzle) =
       Some (Inr (True, \<lparr>board = solution, steps = 51, backtracks = 0\<rparr>)) \<and>
     zeros puzzle = 51 \<and> zeros solution = 0"
proof -
  have b: "board (init puzzle) = puzzle" by simp
  have "wf_grid (board (init puzzle))" by (simp add: wf_puzzle)
  from solve_greedy_result [OF this] obtain p r s' p' where f:
    "initialize_possibilities (board (init puzzle)) = Inr p"
    "greedy_loop (init puzzle, p) = Some (Inr (s', p'))"
    "greedy_pass (s', p') = Inr (s', p', False)"
    "solve_greedy (init puzzle) = Some (Inr (r, s'))"
    by (elim exE conjE)
  from f(1,2) solve_greedy_puzzle have
    s': "s' = \<lparr>board = solution, steps = 51, backtracks = 0\<rparr>" by (rule solve_greedy_state)
  note g = f(1-3)[unfolded b s']
  show ?thesis
    by (intro exI conjI) (rule g solve_greedy_puzzle zeros_puzzle zeros_solution)+
qed

text \<open>
  Claim C5.  On a 9x9 grid the \<open>while progress\<close> loop of \<open>solve_greedy\<close> ends: started on
  the possibilities that \<open>initialize_possibilities\<close> computes, \<open>greedy_loop\<close> returns a
  state, and it does so within one pass more than the grid has empty cells.  The state it
  returns is one on which a full pass makes no placement.  A pass that reports progress
  leaves fewer empty cells than it found, and a grid has at most 81 of them.
\<close>

theorem greedy_loop_ends:
  assumes "wf_grid (board s)"
  shows "\<exists>p s' p'. initialize_possibilities (board s) = Inr p \<and>
           greedy_loop (s, p) = Some (Inr (s', p')) \<and>
           greedy_loop_upto (Suc (zeros (board s))) (s, p) = Some (Inr (s', p')) \<and>
           greedy_pass (s', p') = Inr (s', p', False) \<and>
           zeros (board s') \<le> zeros (board s) \<and> zeros (board s) \<le> 81 \<and>
           (\<forall>s1 p1 s2 p2. good (s1, p1, False) \<and> greedy_pass (s1, p1) = Inr (s2, p2, True) \<longrightarrow>
              zeros (board s2) < zeros (board s1))"
proof -
  from solve_greedy_run[OF assms] obtain p s' p' where r:
    "initialize_possibilities (board s) = Inr p"
    "greedy_loop (s, p) = Some (Inr (s', p'))"
    "greedy_loop_upto (Suc (zeros (board s))) (s, p) = Some (Inr (s', p'))"
    "greedy_pass (s', p') = Inr (s', p', False)"
    "zeros (board s') \<le> zeros (board s)"
    by (elim exE conjE)
  have pass: "zeros (board s2) < zeros (board s1)"
    if "good (s1, p1, False)" "greedy_pass (s1, p1) = Inr (s2, p2, True)" for s1 p1 s2 p2
    using greedy_pass_moved[OF that(1)] that(2) by (auto simp: moved_def)
  then have "\<forall>s1 p1 s2 p2. good (s1, p1, False) \<and> greedy_pass (s1, p1) = Inr (s2, p2, True) \<longrightarrow>
      zeros (board s2) < zeros (board s1)" by blast
  with r zeros_le[of "board s"] show ?thesis
    by - (rule exI[of _ p], rule exI[of _ s'], rule exI[of _ p'], simp)
qed

theorem greedy_loop_ends_witness:
  "\<exists>p p'. initialize_possibilities puzzle = Inr p \<and>
     greedy_loop (init puzzle, p) =
       Some (Inr (\<lparr>board = solution, steps = 51, backtracks = 0\<rparr>, p')) \<and>
     greedy_loop_upto (Suc (zeros puzzle)) (init puzzle, p) =
       Some (Inr (\<lparr>board = solution, steps = 51, backtracks = 0\<rparr>, p')) \<and>
     greedy_pass (\<lparr>board = solution, steps = 51, backtracks = 0\<rparr>, p') =
       Inr (\<lparr>board = solution, steps = 51, backtracks = 0\<rparr>, p', False) \<and>
     zeros solution = 0 \<and> zeros puzzle = 51"
proof -
  have b: "board (init puzzle) = puzzle" by simp
  have "wf_grid (board (init puzzle))" by (simp add: wf_puzzle)
  from greedy_loop_ends [OF this] obtain p s' p' where f:
    "initialize_possibilities (board (init puzzle)) = Inr p"
    "greedy_loop (init puzzle, p) = Some (Inr (s', p'))"
    "greedy_loop_upto (Suc (zeros (board (init puzzle)))) (init puzzle, p) = Some (Inr (s', p'))"
    "greedy_pass (s', p') = Inr (s', p', False)"
    by (elim exE conjE)
  from f(1,2) solve_greedy_puzzle have
    s': "s' = \<lparr>board = solution, steps = 51, backtracks = 0\<rparr>" by (rule solve_greedy_state)
  note g = f[unfolded b s']
  show ?thesis
    by (intro exI conjI) (rule g zeros_puzzle zeros_solution)+
qed

text \<open>
  Claim C8.  On a 9x9 grid with no empty cell \<open>solve_combined\<close> returns true and leaves the
  solver as it was, the grid and both counters.  It does so at every recursion depth, also
  at depth 0, where a call of \<open>solve_smart_backtracking\<close> would raise: the search is not
  entered.  That the rows, columns and boxes are correct is not needed.
\<close>

theorem solve_combined_full:
  assumes "wf_grid (board s)" and "\<forall>i<9. \<forall>j<9. board s ! i ! j \<noteq> 0"
  shows "solve_combined depth s = Some (Inr (True, s)) \<and> solve_greedy s = Some (Inr (True, s))"
proof -
  from assms(2) have z: "zeros (board s) = 0" by (simp add: zeros_0_iff)
  from solve_greedy_wf[OF assms(1)] obtain s' where
    "solve_greedy s = Some (Inr (zeros (board s') = 0, s'))" "zeros (board s) = 0 \<longrightarrow> s' = s"
    by (elim exE conjE)
  with z have "solve_greedy s = Some (Inr (True, s))" by simp
  then show ?thesis by (simp add: solve_combined_def)
qed

theorem solve_combined_full_witness:
  "wf_grid solution \<and> solve_combined 0 (init solution) = Some (Inr (True, init solution)) \<and>
   solve_smart_backtracking 0 (init solution) = Inl RecursionError"
proof -
  have nz: "\<forall>i<9. \<forall>j<9. board (init solution) ! i ! j \<noteq> 0"
  proof -
    have "zeros solution = 0" by code_simp
    then show ?thesis by (simp add: zeros_0_iff)
  qed
  have "wf_grid (board (init solution))" by (simp add: wf_solution)
  from solve_combined_full [OF this nz, of 0] wf_solution show ?thesis by simp
qed

section \<open>The search: what a call leaves\<close>

text \<open>
  What a call of the search that started on the grid \<open>b\<close> and returned leaves: on failure the
  grid \<open>b\<close> itself, on success a grid without empty cells that keeps the digits of \<open>b\<close>.
\<close>
definition search_post :: "grid \<Rightarrow> bool \<times> solverSudoku \<Rightarrow> bool" where
  "search_post b = (\<lambda>(found, s').
     wf_grid (board s') \<and> (\<not> found \<longrightarrow> board s' = b) \<and>
     (found \<longrightarrow> zeros (board s') = 0 \<and> extends b (board s') \<and>
        (legal_grid b \<longrightarrow> legal_grid (board s'))))"

lemma cell_reset:
  assumes "wf_grid b" and "i < 9" and "j < 9" and "b ! i ! j = 0"
  shows "(b[i := (b ! i)[j := d]])[i := ((b[i := (b ! i)[j := d]]) ! i)[j := 0]] = b"
proof -
  define b1 where "b1 = b[i := (b ! i)[j := d]]"
  have wf1: "wf_grid b1" using assms(1) by (simp add: b1_def)
  have "b1[i := (b1 ! i)[j := 0]] = b"
  proof (rule grid_eqI)
    show "wf_grid (b1[i := (b1 ! i)[j := 0]])" using wf1 by (rule wf_grid_update)
    show "wf_grid b" by fact
  next
    fix a c :: nat assume ac: "a < 9" "c < 9"
    have "b1[i := (b1 ! i)[j := 0]] ! a ! c = (if a = i \<and> c = j then 0 else b1 ! a ! c)"
      using wf1 assms(2,3) ac by (rule nth_grid_update)
    moreover have "b1 ! a ! c = (if a = i \<and> c = j then d else b ! a ! c)"
      unfolding b1_def using assms(1,2,3) ac by (rule nth_grid_update)
    ultimately show "b1[i := (b1 ! i)[j := 0]] ! a ! c = b ! a ! c"
      using assms(4) by simp
  qed
  then show ?thesis by (simp only: b1_def)
qed

lemma mcv_cell:
  assumes "wf_grid b"
  shows "(find_most_constrained_cell b = Inr None \<and> zeros b = 0) \<or>
         (\<exists>r c. find_most_constrained_cell b = Inr (Some (r, c)) \<and> r < 9 \<and> c < 9 \<and>
                b ! r ! c = 0)"
proof -
  from find_most_constrained_cell_wf[OF assms] obtain res where res:
    "find_most_constrained_cell b = Inr res"
    "res = None \<longleftrightarrow> (\<forall>i<9. \<forall>j<9. b ! i ! j \<noteq> 0)"
    "\<forall>r c. res = Some (r, c) \<longrightarrow> r < 9 \<and> c < 9 \<and> b ! r ! c = 0"
    by blast
  show ?thesis
  proof (cases res)
    case None
    with res show ?thesis by (simp add: zeros_0_iff)
  next
    case (Some x)
    obtain r c where "x = (r, c)" by (cases x)
    with Some res show ?thesis by simp
  qed
qed

lemma search_sound:
  "wf_grid (board s) \<Longrightarrow> solve_smart_backtracking depth s = Inr r \<Longrightarrow> search_post (board s) r"
  and "wf_grid (board s) \<Longrightarrow> row < 9 \<Longrightarrow> col < 9 \<Longrightarrow> board s ! row ! col = 0 \<Longrightarrow>
       set nums \<subseteq> {1..9} \<Longrightarrow> try_digits depth row col nums s = Inr r \<Longrightarrow>
       search_post (board s) r"
proof (induction depth s and depth row col nums s arbitrary: r and r
    rule: solve_smart_backtracking_try_digits.induct)
  case (1 s)
  then show ?case by simp
next
  case (2 depth s)
  let ?s1 = "s\<lparr>steps := steps s + 1\<rparr>"
  have b1: "board ?s1 = board s" by simp
  from mcv_cell[OF "2.prems"(1)] show ?case
  proof
    assume "find_most_constrained_cell (board s) = Inr None \<and> zeros (board s) = 0"
    with "2.prems" have "r = (True, ?s1)" "zeros (board s) = 0"
      by (simp_all add: Let_def)
    with "2.prems"(1) show ?thesis
      by (simp add: search_post_def extends_refl)
  next
    assume "\<exists>row col. find_most_constrained_cell (board s) = Inr (Some (row, col)) \<and>
        row < 9 \<and> col < 9 \<and> board s ! row ! col = 0"
    then obtain row col where c: "find_most_constrained_cell (board s) = Inr (Some (row, col))"
      "row < 9" "col < 9" "board s ! row ! col = 0" by blast
    with "2.prems"(2) have run: "try_digits depth row col digits ?s1 = Inr r"
      by (simp add: Let_def)
    have "search_post (board ?s1) r"
    proof (rule "2.IH"[of ?s1 "Some (row, col)" "(row, col)" row col])
      show "find_most_constrained_cell (board ?s1) = Inr (Some (row, col))" using c(1) by simp
      show "wf_grid (board ?s1)" using "2.prems"(1) by simp
      show "board ?s1 ! row ! col = 0" using c(4) by simp
      show "set digits \<subseteq> {1..9}" by (simp add: set_digits)
    qed (use c run in simp_all)
    then show ?thesis by simp
  qed
next
  case (3 depth row col s)
  then show ?case by (auto simp: search_post_def)
next
  case (4 depth row col num nums s)
  let ?b = "board s"
  let ?b1 = "?b[row := (?b ! row)[col := num]]"
  note wf = "4.prems"(1) and rc = "4.prems"(2,3) and empty = "4.prems"(4)
  from "4.prems"(5) have num: "1 \<le> num" "num \<le> 9" and nums: "set nums \<subseteq> {1..9}" by auto
  have valid: "is_valid ?b row col num = Inr (free_for ?b row col num)"
    using wf rc by (rule is_valid_wf)
  have set1: "set_cell ?b row col num = Inr ?b1"
    using wf rc by simp
  show ?case
  proof (cases "free_for ?b row col num")
    case False
    with "4.prems"(6) valid have "try_digits depth row col nums s = Inr r" by simp
    with "4.IH"(3)[OF valid] False wf rc empty nums show ?thesis by simp
  next
    case True
    have wf1: "wf_grid (board (s\<lparr>board := ?b1\<rparr>))" using wf by simp
    from "4.prems"(6) valid True set1
    obtain found y where inner: "solve_smart_backtracking depth (s\<lparr>board := ?b1\<rparr>) = Inr (found, y)"
      by (cases "solve_smart_backtracking depth (s\<lparr>board := ?b1\<rparr>)") auto
    from "4.IH"(1)[OF valid True set1 wf1 inner]
    have post1: "search_post ?b1 (found, y)" by simp
    show ?thesis
    proof (cases found)
      case True
      with "4.prems"(6) valid \<open>free_for ?b row col num\<close> set1 inner have r: "r = (True, y)"
        by simp
      from post1 True have y: "wf_grid (board y)" "zeros (board y) = 0" "extends ?b1 (board y)"
        "legal_grid ?b1 \<longrightarrow> legal_grid (board y)"
        by (simp_all add: search_post_def)
      have "extends ?b ?b1" using wf rc empty by (rule extends_place)
      with y(3) have "extends ?b (board y)" by (rule extends_trans[rotated])
      moreover have "legal_grid ?b \<longrightarrow> legal_grid ?b1"
        using wf rc empty num \<open>free_for ?b row col num\<close>
        by (auto simp: legal_grid_def intro: consistent_place digits_ok_place)
      ultimately show ?thesis using y r by (simp add: search_post_def)
    next
      case False
      with post1 have y: "board y = ?b1" by (simp add: search_post_def)
      have reset: "?b1[row := (?b1 ! row)[col := 0]] = ?b"
        using wf rc empty by (rule cell_reset)
      have set3: "set_cell (board y) row col 0 = Inr ?b"
        using y wf rc reset by simp
      let ?s3 = "y\<lparr>board := ?b, backtracks := backtracks y + 1\<rparr>"
      from "4.prems"(6) valid \<open>free_for ?b row col num\<close> set1 inner False set3
      have run: "try_digits depth row col nums ?s3 = Inr r" by simp
      have "search_post (board ?s3) r"
        by (rule "4.IH"(2)[OF valid \<open>free_for ?b row col num\<close> set1 inner _ False set3])
           (use wf rc empty nums run in simp_all)
      then show ?thesis by simp
    qed
  qed
qed

section \<open>The search: a failed call\<close>

text \<open>
  A grid without a completion in which no rule of the propagation fires at once and every
  empty cell has a digit to try: the search places 5 at (0, 0), then 2 at (1, 0), finds
  nothing for (7, 0) and takes both digits back.
\<close>
definition dead :: grid where
  "dead =
    [[0, 3, 4, 6, 7, 8, 9, 1, 2],
     [0, 7, 6, 1, 9, 5, 3, 4, 8],
     [1, 9, 8, 3, 4, 2, 5, 6, 7],
     [8, 5, 9, 7, 6, 1, 4, 2, 3],
     [0, 0, 0, 8, 5, 3, 7, 9, 1],
     [7, 1, 3, 9, 2, 4, 8, 5, 6],
     [9, 6, 1, 5, 3, 7, 2, 8, 4],
     [0, 8, 7, 4, 1, 9, 6, 3, 5],
     [3, 4, 5, 2, 8, 6, 1, 0, 9]]"

lemma wf_dead: "wf_grid dead"
  by (simp add: wf_grid_def dead_def)

text \<open>
  Claim C10.  When an invocation of \<open>solve_smart_backtracking\<close> on a 9x9 grid returns false,
  the grid of the solver it leaves is the grid it was called on: every digit that the
  invocation or one of its recursive invocations placed is 0 again.
\<close>

theorem failed_search_restores:
  assumes "wf_grid (board s)" and "solve_smart_backtracking depth s = Inr (False, s')"
  shows "board s' = board s"
  using search_sound(1)[OF assms] by (simp add: search_post_def)

theorem failed_search_restores_witness:
  "wf_grid dead \<and>
   solve_smart_backtracking 82 (init dead) = Inr (False, \<lparr>board = dead, steps = 3, backtracks = 2\<rparr>)"
proof -
  have run: "solve_smart_backtracking 82 (init dead) =
      Inr (False, \<lparr>board = dead, steps = 3, backtracks = 2\<rparr>)"
    by code_simp
  have "wf_grid (board (init dead))" by (simp add: wf_dead)
  from failed_search_restores [OF this run] wf_dead run show ?thesis by simp
qed

section \<open>Solved grids\<close>

text \<open>
  A solved grid, in the words of the specification: every cell holds a digit from 1 to 9,
  and every row, every column and every box contains each digit exactly once.
\<close>

definition cell_values :: "grid \<Rightarrow> (nat \<times> nat) list \<Rightarrow> int list" where
  "cell_values g cells = map (\<lambda>(i, j). g ! i ! j) cells"

definition group_ok :: "grid \<Rightarrow> (nat \<times> nat) list \<Rightarrow> bool" where
  "group_ok g cells \<longleftrightarrow> (\<forall>d \<in> set digits. count_list (cell_values g cells) d = 1)"

definition solved :: "grid \<Rightarrow> bool" where
  "solved g \<longleftrightarrow>
     wf_grid g \<and> (\<forall>(i, j) \<in> set all_cells. 1 \<le> g ! i ! j \<and> g ! i ! j \<le> 9) \<and>
     (\<forall>k \<in> set [0..<9].
        group_ok g (row_cells k) \<and> group_ok g (col_cells k) \<and> group_ok g (box_group k))"

lemma count_list_distinct: "distinct xs \<Longrightarrow> x \<in> set xs \<Longrightarrow> count_list xs x = 1"
  by (induction xs) (auto simp: count_notin)

lemma groups_shape:
  "\<forall>k \<in> set [0..<9]. \<forall>cells \<in> set [row_cells k, col_cells k, box_group k].
     distinct cells \<and> length cells = 9 \<and> (\<forall>x \<in> set cells. \<forall>y \<in> set cells. peers x y) \<and>
     (\<forall>(i, j) \<in> set cells. i < 9 \<and> j < 9)"
  by code_simp

lemma group_full:
  assumes cells: "distinct cells" "length cells = 9" "\<forall>x \<in> set cells. \<forall>y \<in> set cells. peers x y"
      "\<forall>(i, j) \<in> set cells. i < 9 \<and> j < 9"
    and g: "consistent g" "\<forall>i<9. \<forall>j<9. 1 \<le> g ! i ! j \<and> g ! i ! j \<le> 9"
  shows "group_ok g cells"
proof -
  let ?f = "\<lambda>(i, j). g ! i ! j"
  let ?vs = "cell_values g cells"
  have inj: "inj_on ?f (set cells)"
  proof (rule inj_onI)
    fix x y assume xy: "x \<in> set cells" "y \<in> set cells" "?f x = ?f y"
    obtain i j where x: "x = (i, j)" by (cases x)
    obtain i' j' where y: "y = (i', j')" by (cases y)
    from cells(4) xy(1,2) x y have r: "i < 9" "j < 9" "i' < 9" "j' < 9" by auto
    from cells(3) xy(1,2) x y have p: "peers (i, j) (i', j')" by auto
    from g(2) r have nz: "g ! i ! j \<noteq> 0" by force
    show "x = y"
    proof (rule ccontr)
      assume "x \<noteq> y"
      with x y have "(i, j) \<noteq> (i', j')" by simp
      with g(1) r p nz have "g ! i ! j \<noteq> g ! i' ! j'"
        unfolding consistent_iff by blast
      with xy(3) x y show False by simp
    qed
  qed
  have d: "distinct ?vs"
    unfolding cell_values_def using cells(1) inj by (simp add: distinct_map)
  have sub: "set ?vs \<subseteq> {1..9}"
    unfolding cell_values_def using cells(4) g(2) by auto
  have "card (set ?vs) = length ?vs" using d by (rule distinct_card)
  also have "\<dots> = 9" using cells(2) by (simp add: cell_values_def)
  finally have "card (set ?vs) = card {1..9::int}" by simp
  with sub have "set ?vs = {1..9}" by (intro card_subset_eq) simp_all
  then have "count_list ?vs x = 1" if "x \<in> set digits" for x
    using d that by (intro count_list_distinct) (simp_all add: set_digits)
  then show ?thesis
    unfolding group_ok_def by blast
qed

lemma full_legal_solved:
  assumes "wf_grid g" and "zeros g = 0" and "legal_grid g"
  shows "solved g"
proof -
  from assms(3) have c: "consistent g" and dg: "digits_ok g" by (simp_all add: legal_grid_def)
  have v: "\<forall>i<9. \<forall>j<9. 1 \<le> g ! i ! j \<and> g ! i ! j \<le> 9"
  proof (intro allI impI)
    fix i j :: nat assume "i < 9" "j < 9"
    with dg assms(2) have "0 \<le> g ! i ! j" "g ! i ! j \<le> 9" "g ! i ! j \<noteq> 0"
      by (simp_all add: digits_ok_iff zeros_0_iff)
    then show "1 \<le> g ! i ! j \<and> g ! i ! j \<le> 9" by simp
  qed
  have grp: "group_ok g cells"
    if "k \<in> set [0..<9]" "cells \<in> set [row_cells k, col_cells k, box_group k]" for k cells
  proof -
    from groups_shape that have "distinct cells" "length cells = 9"
      "\<forall>x \<in> set cells. \<forall>y \<in> set cells. peers x y" "\<forall>(i, j) \<in> set cells. i < 9 \<and> j < 9"
      by blast+
    then show ?thesis using c v by (rule group_full)
  qed
  have "\<forall>k \<in> set [0..<9].
        group_ok g (row_cells k) \<and> group_ok g (col_cells k) \<and> group_ok g (box_group k)"
    using grp by simp
  moreover have "\<forall>(i, j) \<in> set all_cells. 1 \<le> g ! i ! j \<and> g ! i ! j \<le> 9"
    using v by (auto simp: set_all_cells)
  ultimately show ?thesis using assms(1) by (simp add: solved_def)
qed

section \<open>The search returns\<close>


lemma solve_combined_sound:
  assumes "wf_grid (board s)" and "solve_combined depth s = Some (Inr (True, s'))"
  shows "wf_grid (board s') \<and> zeros (board s') = 0 \<and> extends (board s) (board s') \<and>
         (legal_grid (board s) \<longrightarrow> legal_grid (board s'))"
proof -
  from solve_greedy_wf[OF assms(1)] obtain s1 where g:
    "solve_greedy s = Some (Inr (zeros (board s1) = 0, s1))" "wf_grid (board s1)"
    "extends (board s) (board s1)" "legal_grid (board s) \<longrightarrow> legal_grid (board s1)"
    by (elim exE conjE)
  note after = solve_combined_after[OF g(1), of depth]
  show ?thesis
  proof (cases "zeros (board s1) = 0")
    case True
    with after assms(2) have "s' = s1" by simp
    with g True show ?thesis by simp
  next
    case False
    with after assms(2) have "solve_smart_backtracking depth s1 = Inr (True, s')" by simp
    from search_sound(1)[OF g(2) this]
    have p: "wf_grid (board s')" "zeros (board s') = 0" "extends (board s1) (board s')"
      "legal_grid (board s1) \<longrightarrow> legal_grid (board s')"
      by (simp_all add: search_post_def)
    from g(3) p(3) have "extends (board s) (board s')" by (rule extends_trans)
    with p g(4) show ?thesis by simp
  qed
qed


lemma solve_combined_zeros:
  assumes "wf_grid (board s)" and "zeros (board s) = 0"
  shows "solve_combined depth s = Some (Inr (True, s))"
proof -
  from solve_greedy_wf[OF assms(1)] obtain s' where
    "solve_greedy s = Some (Inr (zeros (board s') = 0, s'))" "zeros (board s) = 0 \<longrightarrow> s' = s"
    by (elim exE conjE)
  with assms(2) have "solve_greedy s = Some (Inr (True, s))" by simp
  then show ?thesis by (simp add: solve_combined_def)
qed

lemma solve_combined_upto:
  "solve_greedy_upto n s = Some (Inr (complete, s')) \<Longrightarrow>
   solve_combined depth s =
     (if complete then Some (Inr (True, s')) else Some (solve_smart_backtracking depth s'))"
  by (rule solve_combined_after) (rule solve_greedy_upto)

section \<open>Legal completions\<close>



text \<open>The solution with a rectangle of 6 and 7 emptied: no rule of the propagation fires.\<close>
definition hard :: grid where
  "hard =
    [[5, 3, 4, 0, 0, 8, 9, 1, 2],
     [6, 7, 2, 1, 9, 5, 3, 4, 8],
     [1, 9, 8, 3, 4, 2, 5, 6, 7],
     [8, 5, 9, 0, 0, 1, 4, 2, 3],
     [4, 2, 6, 8, 5, 3, 7, 9, 1],
     [7, 1, 3, 9, 2, 4, 8, 5, 6],
     [9, 6, 1, 5, 3, 7, 2, 8, 4],
     [2, 8, 7, 4, 1, 9, 6, 3, 5],
     [3, 4, 5, 2, 8, 6, 1, 7, 9]]"

text \<open>A full grid that holds 1 in every cell.\<close>
definition ones :: grid where
  "ones = replicate 9 (replicate 9 1)"


lemma wf_hard: "wf_grid hard"
  by (simp add: wf_grid_def hard_def)

lemma wf_ones: "wf_grid ones"
  by (simp add: wf_grid_def ones_def)








section \<open>The combined solver: results\<close>

lemma legal_hard: "legal_grid hard"
  by code_simp


lemma solve_combined_hard:
  "solve_combined 82 (init hard) =
     Some (Inr (True, \<lparr>board = solution, steps = 5, backtracks = 0\<rparr>))"
proof -
  have "solve_greedy_upto 1 (init hard) =
      Some (Inr (False, \<lparr>board = hard, steps = 0, backtracks = 0\<rparr>))"
    by code_simp
  then have "solve_combined 82 (init hard) =
      Some (solve_smart_backtracking 82 \<lparr>board = hard, steps = 0, backtracks = 0\<rparr>)"
    by (simp add: solve_combined_upto)
  also have "solve_smart_backtracking 82 \<lparr>board = hard, steps = 0, backtracks = 0\<rparr> =
      Inr (True, \<lparr>board = solution, steps = 5, backtracks = 0\<rparr>)"
    by code_simp
  finally show ?thesis .
qed




text \<open>
  Claim C1, as stated, fails: the full grid of ones has its entries in 0..9,
  \<open>solve_combined\<close> returns true on it and leaves it as it is, and it is not solved.
\<close>

theorem full_grid_accepted:
  "wf_grid ones \<and> digits_ok ones \<and>
   solve_combined 1000 (init ones) = Some (Inr (True, init ones)) \<and>
   board (init ones) = ones \<and> \<not> solved ones"
proof -
  have z: "zeros (board (init ones)) = 0" by code_simp
  have "wf_grid (board (init ones))" by (simp add: wf_ones)
  then have "solve_combined 1000 (init ones) = Some (Inr (True, init ones))"
    using z by (rule solve_combined_zeros)
  moreover have "digits_ok ones" by code_simp
  moreover have "\<not> solved ones" by code_simp
  ultimately show ?thesis using wf_ones by simp
qed

text \<open>
  Claim C1, amended.  On a 9x9 grid with entries in 0..9 in which no row, column or box
  holds a digit twice: if \<open>solve_combined\<close> returns true, every cell of the grid it leaves
  holds a digit from 1 to 9, every row, column and box of it contains each digit exactly
  once, and it keeps the digits of the input.
\<close>

theorem solve_combined_solved:
  assumes "wf_grid (board s)" and "legal_grid (board s)"
    and "solve_combined depth s = Some (Inr (True, s'))"
  shows "solved (board s') \<and> extends (board s) (board s')"
proof -
  from solve_combined_sound[OF assms(1,3)] assms(2)
  have "wf_grid (board s')" "zeros (board s') = 0" "extends (board s) (board s')"
    "legal_grid (board s')" by simp_all
  then show ?thesis by (simp add: full_legal_solved)
qed

theorem solve_combined_solved_witness:
  "wf_grid hard \<and> legal_grid hard \<and> zeros hard = 4 \<and>
   solve_combined 82 (init hard) =
     Some (Inr (True, \<lparr>board = solution, steps = 5, backtracks = 0\<rparr>)) \<and>
   solved solution \<and> extends hard solution"
proof -
  have "wf_grid (board (init hard))" "legal_grid (board (init hard))"
    by (simp_all add: wf_hard legal_hard)
  from solve_combined_solved [OF this solve_combined_hard]
  have "solved solution" "extends hard solution" by simp_all
  moreover have "zeros hard = 4" by code_simp
  ultimately show ?thesis using wf_hard legal_hard solve_combined_hard by simp
qed




end
